theory Spec2Isabelle
  imports Complex_Main "HOL-Library.Word" "HOL-Library.Code_Target_Numeral"
begin

section \<open>The AHT30 logger: a shallow embedding of \<open>src/main.cpp\<close>\<close>

text \<open>
  The program appends one CSV line per sample to \<open>/aht30.csv\<close> on an ESP32's LittleFS,
  rewrites the file to drop old lines, and scans it to answer two HTTP queries.
  The log is modelled as the byte string the file holds (a \<open>string\<close>), each source
  function as a HOL function of the same name, and the three \<open>while (f.available())\<close> loops
  as recursive functions over the unread rest of the file.

  Integer types. \<open>long\<close> is the ESP32's 32-bit \<open>long\<close>, the type of \<open>String::toInt\<close> and of
  the \<open>%ld\<close> argument. \<open>time_t\<close> is 64 bits wide on the current ESP32 toolchain and no
  computation of the program leaves that range, so it is an \<open>int\<close> here, with the casts
  between the two written out. \<open>uint32_t\<close> is a \<open>32 word\<close>.

  Floating point. A finite \<open>float\<close> is the rational number it denotes; \<open>%.2f\<close> prints that
  number correctly rounded. \<open>String::toFloat\<close> is a parameter of the readers.
\<close>

subsection \<open>Constants\<close>

definition LOG_PATH :: string where
  "LOG_PATH = ''/aht30.csv''"

definition TMP_PATH :: string where
  "TMP_PATH = ''/tmp.csv''"

definition SAMPLE_MS :: "32 word" where
  "SAMPLE_MS = 60 * 1000"

definition PRUNE_EVERY_MS :: "32 word" where
  "PRUNE_EVERY_MS = 6 * 60 * 60 * 1000"

definition KEEP_SECONDS :: int where
  "KEEP_SECONDS = 7 * 24 * 3600"

text \<open>The sanity floor that \<open>ensureTime\<close>, \<open>maybePrune\<close>, \<open>handleHistory\<close>, \<open>setup\<close> and
  \<open>loop\<close> all compare the clock with.\<close>

definition TIME_FLOOR :: int where
  "TIME_FLOOR = 1700000000"

subsection \<open>C library: character classes, \<open>long\<close>, \<open>atol\<close>\<close>

definition NUL :: char where
  "NUL = CHR 0x00"

definition newline :: char where
  "newline = CHR 0x0A"

definition carriage_return :: char where
  "carriage_return = CHR 0x0D"

definition comma :: char where
  "comma = CHR '',''"

text \<open>\<open>isspace\<close> in the C locale: space, \<open>\t\<close>, \<open>\n\<close>, \<open>\v\<close>, \<open>\f\<close>, \<open>\r\<close>.\<close>

definition isspace :: "char \<Rightarrow> bool" where
  "isspace c = (c = CHR 0x20 \<or> c = CHR 0x09 \<or> c = CHR 0x0A \<or> c = CHR 0x0B
                \<or> c = CHR 0x0C \<or> c = CHR 0x0D)"

definition isdigit :: "char \<Rightarrow> bool" where
  "isdigit c = (48 \<le> (of_char c :: nat) \<and> (of_char c :: nat) \<le> 57)"

definition digit_val :: "char \<Rightarrow> nat" where
  "digit_val c = of_char c - 48"

definition digit_char :: "nat \<Rightarrow> char" where
  "digit_char d = char_of (48 + d)"

definition LONG_MAX :: int where
  "LONG_MAX = 2147483647"

definition LONG_MIN :: int where
  "LONG_MIN = - 2147483648"

text \<open>The cast \<open>(long)ts\<close> of a wider integer: reduction modulo \<open>2^32\<close> into the signed range.\<close>

definition to_long :: "int \<Rightarrow> int" where
  "to_long x = (x + 2147483648) mod 4294967296 - 2147483648"

text \<open>The value of a run of decimal digits, most significant first.\<close>

definition digits_val :: "string \<Rightarrow> nat" where
  "digits_val ds = foldl (\<lambda>a c. 10 * a + digit_val c) 0 ds"

text \<open>\<open>atol\<close> (newlib's \<open>strtol\<close> in base 10): skip white space, take an optional sign and the
  longest run of digits, 0 when there is none, and saturate at the ends of \<open>long\<close>.\<close>

definition atol :: "string \<Rightarrow> int" where
  "atol s =
     (let s1 = dropWhile isspace s;
          neg = (s1 \<noteq> [] \<and> hd s1 = CHR ''-'');
          s2 = (if s1 \<noteq> [] \<and> (hd s1 = CHR ''-'' \<or> hd s1 = CHR ''+'') then tl s1 else s1);
          n = int (digits_val (takeWhile isdigit s2))
      in if neg then max LONG_MIN (- n) else min LONG_MAX n)"

subsection \<open>Arduino \<open>String\<close> and \<open>Stream\<close>\<close>

text \<open>\<open>String::trim\<close>: drop white space at both ends.\<close>

definition trim :: "string \<Rightarrow> string" where
  "trim s = rev (dropWhile isspace (rev (dropWhile isspace s)))"

text \<open>\<open>String::indexOf(ch, fromIndex)\<close>: \<open>-1\<close> when \<open>fromIndex\<close> is past the end, else the
  position of \<open>strchr(buffer + fromIndex, ch)\<close>, which stops at the first NUL byte.\<close>

definition indexOf :: "char \<Rightarrow> nat \<Rightarrow> string \<Rightarrow> int" where
  "indexOf ch fromIndex s =
     (if fromIndex \<ge> length s then - 1
      else let t = takeWhile (\<lambda>c. c \<noteq> NUL) (drop fromIndex s)
           in if ch \<in> set t then int (fromIndex + length (takeWhile (\<lambda>c. c \<noteq> ch) t))
              else - 1)"

text \<open>\<open>String::substring(left, right)\<close>: the bounds are swapped when out of order, the
  result is empty when \<open>left\<close> is past the end, and \<open>right\<close> is cut at the length.\<close>

definition substring :: "string \<Rightarrow> nat \<Rightarrow> nat \<Rightarrow> string" where
  "substring s left right =
     (let l = (if left > right then right else left);
          r = (if left > right then left else right)
      in if l \<ge> length s then []
         else take ((if r > length s then length s else r) - l) (drop l s))"

text \<open>\<open>String::substring(left)\<close> is \<open>substring(left, length)\<close>.\<close>

definition substring_from :: "string \<Rightarrow> nat \<Rightarrow> string" where
  "substring_from s left = substring s left (length s)"

text \<open>\<open>String::toInt\<close> is \<open>atol\<close> of the buffer.\<close>

definition toInt :: "string \<Rightarrow> int" where
  "toInt s = atol s"

text \<open>\<open>Stream::readStringUntil(terminator)\<close> on a file whose unread rest is \<open>inp\<close>: the
  bytes before the first terminator (all of them when there is none), and the rest after
  the terminator, which is consumed.\<close>

definition readStringUntil :: "char \<Rightarrow> string \<Rightarrow> string \<times> string" where
  "readStringUntil terminator inp =
     (takeWhile (\<lambda>c. c \<noteq> terminator) inp, drop 1 (dropWhile (\<lambda>c. c \<noteq> terminator) inp))"

text \<open>\<open>Print::println(const String&)\<close> writes the bytes and then \<open>\r\n\<close>.\<close>

definition println :: "string \<Rightarrow> string \<Rightarrow> string" where
  "println out line = out @ line @ [carriage_return, newline]"

subsection \<open>The file system\<close>

text \<open>LittleFS as far as the program uses it: whether it is mounted, whether a file can be
  opened for writing, and the content of each file. \<open>open(path, FILE_READ)\<close> fails when the
  file does not exist.\<close>

record fs =
  mounted :: bool
  writable :: bool
  files :: "string \<Rightarrow> string option"

definition open_read :: "fs \<Rightarrow> string \<Rightarrow> string option" where
  "open_read s path = (if mounted s then files s path else None)"

definition can_open_write :: "fs \<Rightarrow> bool" where
  "can_open_write s = (mounted s \<and> writable s)"

subsection \<open>Sensor values and \<open>printf\<close>\<close>

text \<open>A C \<open>float\<close> as the sensor driver returns it: not-a-number, an infinity, or a finite
  value, held as the rational number it is. Every finite \<open>float\<close> is such a number; the
  model does not tell \<open>-0.0\<close> from \<open>0.0\<close>.\<close>

datatype cfloat = NaN | PInf | NInf | Finite rat

definition isnan :: "cfloat \<Rightarrow> bool" where
  "isnan x = (x = NaN)"

text \<open>\<open>x < c\<close> and \<open>x > c\<close> against a finite constant; both are false on NaN.\<close>

definition flt_lt :: "cfloat \<Rightarrow> rat \<Rightarrow> bool" where
  "flt_lt x c = (case x of NaN \<Rightarrow> False | PInf \<Rightarrow> False | NInf \<Rightarrow> True | Finite q \<Rightarrow> q < c)"

definition flt_gt :: "cfloat \<Rightarrow> rat \<Rightarrow> bool" where
  "flt_gt x c = (case x of NaN \<Rightarrow> False | PInf \<Rightarrow> True | NInf \<Rightarrow> False | Finite q \<Rightarrow> q > c)"

fun show_nat :: "nat \<Rightarrow> string" where
  "show_nat n = (if n < 10 then [digit_char n] else show_nat (n div 10) @ [digit_char (n mod 10)])"

declare show_nat.simps [simp del]

text \<open>\<open>%ld\<close>.\<close>

definition fmt_ld :: "int \<Rightarrow> string" where
  "fmt_ld n = (if n < 0 then CHR ''-'' # show_nat (nat (- n)) else show_nat (nat n))"

text \<open>Rounding a non-negative rational to the nearest natural number, a tie to the even
  one, as \<open>printf\<close> rounds the exact binary value.\<close>

definition round_half_even :: "rat \<Rightarrow> nat" where
  "round_half_even x =
     (let f = nat \<lfloor>x\<rfloor>; d = x - of_nat f
      in if d < 1 / 2 then f else if d > 1 / 2 then f + 1 else if even f then f else f + 1)"

text \<open>\<open>%.2f\<close>: the sign, the integer part, a point and two decimals of the value rounded
  to hundredths.\<close>

definition fmt_2f :: "cfloat \<Rightarrow> string" where
  "fmt_2f x =
     (case x of
        NaN \<Rightarrow> ''nan''
      | PInf \<Rightarrow> ''inf''
      | NInf \<Rightarrow> ''-inf''
      | Finite q \<Rightarrow>
          (let k = round_half_even (\<bar>q\<bar> * 100)
           in (if q < 0 then ''-'' else []) @ show_nat (k div 100) @ ''.''
              @ [digit_char (k mod 100 div 10), digit_char (k mod 10)]))"

subsection \<open>\<open>appendReading\<close>\<close>

text \<open>The line of \<open>f.printf("%ld,%.2f,%.2f\n", (long)ts, tempC, hum)\<close>.\<close>

definition reading_line :: "int \<Rightarrow> cfloat \<Rightarrow> cfloat \<Rightarrow> string" where
  "reading_line ts tempC hum =
     fmt_ld (to_long ts) @ [comma] @ fmt_2f tempC @ [comma] @ fmt_2f hum @ [newline]"

text \<open>\<open>FILE_APPEND\<close> creates the file when it does not exist.\<close>

definition appendReading :: "int \<Rightarrow> cfloat \<Rightarrow> cfloat \<Rightarrow> fs \<Rightarrow> fs" where
  "appendReading ts tempC hum s =
     (if \<not> can_open_write s then s
      else
        let old = (case files s LOG_PATH of None \<Rightarrow> [] | Some c \<Rightarrow> c)
        in s\<lparr>files := (files s)(LOG_PATH \<mapsto> old @ reading_line ts tempC hum)\<rparr>)"

subsection \<open>\<open>pruneOlderThan\<close>\<close>

lemma readStringUntil_shorter:
  "inp \<noteq> [] \<Longrightarrow> length (snd (readStringUntil t inp)) < length inp"
  by (cases inp) (auto simp: readStringUntil_def intro: le_imp_less_Suc length_dropWhile_le
      le_trans [OF diff_le_self length_dropWhile_le])

function pruneLoop :: "int \<Rightarrow> string \<Rightarrow> string \<Rightarrow> string" where
  "pruneLoop cutoffTs inp out =
     (if inp = [] then out
      else
        let line = trim (fst (readStringUntil newline inp));
            rest = snd (readStringUntil newline inp)
        in if length line < 5 then pruneLoop cutoffTs rest out
           else
             let c1 = indexOf comma 0 line
             in if c1 \<le> 0 then pruneLoop cutoffTs rest out
                else
                  let ts = toInt (substring line 0 (nat c1))
                  in if ts \<ge> cutoffTs then pruneLoop cutoffTs rest (println out line)
                     else pruneLoop cutoffTs rest out)"
  by pat_completeness auto
termination
  by (relation "measure (\<lambda>(c, inp, out). length inp)") (auto simp: readStringUntil_shorter)

declare pruneLoop.simps [simp del]

definition pruneOlderThan :: "int \<Rightarrow> fs \<Rightarrow> fs" where
  "pruneOlderThan cutoffTs s =
     (case open_read s LOG_PATH of
        None \<Rightarrow> s
      | Some inp \<Rightarrow>
          if \<not> can_open_write s then s
          else
            let out = pruneLoop cutoffTs inp [];
                fl = (files s)(TMP_PATH \<mapsto> out);
                fl = fl(LOG_PATH := None);
                fl = fl(LOG_PATH := fl TMP_PATH, TMP_PATH := None)
            in s\<lparr>files := fl\<rparr>)"

subsection \<open>\<open>maybePrune\<close>\<close>

text \<open>The device state besides the file system: the two tick marks.\<close>

record state =
  lastSampleMs :: "32 word"
  lastPruneMs :: "32 word"
  store :: fs

text \<open>\<open>ms1\<close> and \<open>ms2\<close> are the two readings of \<open>millis()\<close>, \<open>t\<close> the reading of
  \<open>nowUtc()\<close>.\<close>

definition maybePrune :: "32 word \<Rightarrow> 32 word \<Rightarrow> int \<Rightarrow> state \<Rightarrow> state" where
  "maybePrune ms1 ms2 t st =
     (if ms1 - lastPruneMs st < PRUNE_EVERY_MS then st
      else
        let st1 = st\<lparr>lastPruneMs := ms2\<rparr>
        in if t \<le> TIME_FLOOR then st1
           else
             let cutoff = t - KEEP_SECONDS
             in st1\<lparr>store := pruneOlderThan cutoff (store st1)\<rparr>)"

subsection \<open>\<open>ensureTime\<close>\<close>

text \<open>The wait for the clock at startup. \<open>polls\<close> are the successive readings of \<open>millis()\<close>
  at the loop test and of \<open>nowUtc()\<close> in the loop body; the result is \<open>None\<close> when they run out
  before the loop ends.\<close>

fun ensureTime :: "32 word \<Rightarrow> 32 word \<Rightarrow> (32 word \<times> int) list \<Rightarrow> bool option" where
  "ensureTime timeoutMs start [] = None"
| "ensureTime timeoutMs start ((ms, t) # polls) =
     (if ms - start < timeoutMs then
        (if t > TIME_FLOOR then Some True else ensureTime timeoutMs start polls)
      else Some False)"

subsection \<open>HTTP handlers\<close>

text \<open>The JSON document of one reading, and the bodies \<open>server.send\<close> is given.
  \<open>String::toFloat\<close> (the C library's \<open>atof\<close>, narrowed to \<open>float\<close>) is a parameter
  \<open>toFloat\<close> of the handlers.\<close>

datatype json_doc = Doc (doc_ts: int) (doc_tempC: cfloat) (doc_humidity: cfloat)

datatype body = ErrorBody string | DocBody json_doc

function latestLoop :: "string \<Rightarrow> string \<Rightarrow> string" where
  "latestLoop inp lastLine =
     (if inp = [] then lastLine
      else
        let line = trim (fst (readStringUntil newline inp));
            rest = snd (readStringUntil newline inp)
        in if length line > 5 then latestLoop rest line else latestLoop rest lastLine)"
  by pat_completeness auto
termination
  by (relation "measure (\<lambda>(inp, lastLine). length inp)") (auto simp: readStringUntil_shorter)

declare latestLoop.simps [simp del]

definition handleLatest :: "(string \<Rightarrow> cfloat) \<Rightarrow> fs \<Rightarrow> nat \<times> body" where
  "handleLatest toFloat s =
     (case open_read s LOG_PATH of
        None \<Rightarrow> (404, ErrorBody ''no_data'')
      | Some inp \<Rightarrow>
          let lastLine = latestLoop inp []
          in if length lastLine < 5 then (404, ErrorBody ''no_data'')
             else
               let c1 = indexOf comma 0 lastLine;
                   c2 = indexOf comma (nat (c1 + 1)) lastLine
               in if c1 \<le> 0 \<or> c2 \<le> c1 then (500, ErrorBody ''bad_log_format'')
                  else
                    let ts = toInt (substring lastLine 0 (nat c1));
                        t = toFloat (substring lastLine (nat (c1 + 1)) (nat c2));
                        h = toFloat (substring_from lastLine (nat (c2 + 1)))
                    in (200, DocBody (Doc (to_long ts) t h)))"

text \<open>The elements of the JSON array that \<open>sendHistorySince\<close> streams, in the order sent.\<close>

function historyLoop :: "(string \<Rightarrow> cfloat) \<Rightarrow> int \<Rightarrow> string \<Rightarrow> json_doc list \<Rightarrow> json_doc list" where
  "historyLoop toFloat sinceTs inp sent =
     (if inp = [] then sent
      else
        let line = trim (fst (readStringUntil newline inp));
            rest = snd (readStringUntil newline inp)
        in if length line < 5 then historyLoop toFloat sinceTs rest sent
           else
             let c1 = indexOf comma 0 line;
                 c2 = indexOf comma (nat (c1 + 1)) line
             in if c1 \<le> 0 \<or> c2 \<le> c1 then historyLoop toFloat sinceTs rest sent
                else
                  let ts = toInt (substring line 0 (nat c1))
                  in if ts < sinceTs then historyLoop toFloat sinceTs rest sent
                     else
                       let t = toFloat (substring line (nat (c1 + 1)) (nat c2));
                           h = toFloat (substring_from line (nat (c2 + 1)))
                       in historyLoop toFloat sinceTs rest (sent @ [Doc (to_long ts) t h]))"
  by pat_completeness auto
termination
  by (relation "measure (\<lambda>(f, c, inp, sent). length inp)") (auto simp: readStringUntil_shorter)

declare historyLoop.simps [simp del]

definition sendHistorySince :: "(string \<Rightarrow> cfloat) \<Rightarrow> int \<Rightarrow> fs \<Rightarrow> json_doc list" where
  "sendHistorySince toFloat sinceTs s =
     (case open_read s LOG_PATH of
        None \<Rightarrow> []
      | Some inp \<Rightarrow> historyLoop toFloat sinceTs inp [])"

text \<open>The request's query arguments: \<open>server.hasArg(n)\<close> is \<open>args n \<noteq> None\<close>, and
  \<open>server.arg(n)\<close> the value. \<open>history_sinceTs\<close> is the value of \<open>sinceTs\<close> that
  \<open>handleHistory\<close> passes on, \<open>nowT\<close> the reading of \<open>nowUtc()\<close>.\<close>

definition history_sinceTs :: "(string \<Rightarrow> string option) \<Rightarrow> int \<Rightarrow> int" where
  "history_sinceTs args nowT =
     (case args ''since'' of
        Some a \<Rightarrow> toInt a
      | None \<Rightarrow>
          (case args ''days'' of
             Some d \<Rightarrow>
               let days = toInt d;
                   days = (if days \<le> 0 then 7 else days)
               in if nowT > TIME_FLOOR then nowT - days * 24 * 3600 else 0
           | None \<Rightarrow> if nowT > TIME_FLOOR then nowT - KEEP_SECONDS else 0))"

definition handleHistory ::
  "(string \<Rightarrow> cfloat) \<Rightarrow> (string \<Rightarrow> string option) \<Rightarrow> int \<Rightarrow> fs \<Rightarrow> json_doc list" where
  "handleHistory toFloat args nowT s = sendHistorySince toFloat (history_sinceTs args nowT) s"

subsection \<open>\<open>setup\<close> and \<open>loop\<close>\<close>

text \<open>\<open>setup\<close> as far as it touches the log. First the file is created empty when it does
  not exist (\<open>LittleFS.exists\<close> is false on a file system that is not mounted).\<close>

definition ensure_log_file :: "fs \<Rightarrow> fs" where
  "ensure_log_file s =
     (if \<not> (mounted s \<and> files s LOG_PATH \<noteq> None) then
        (if can_open_write s then s\<lparr>files := (files s)(LOG_PATH \<mapsto> [])\<rparr> else s)
      else s)"

text \<open>Then, after \<open>ensureTime\<close>, whose result only selects a message on the serial port,
  the log is pruned once when the clock reading \<open>t\<close> is valid; \<open>ms1\<close> and \<open>ms2\<close> are the
  readings of \<open>millis()\<close> that start the two timers.\<close>

definition setup_device :: "int \<Rightarrow> 32 word \<Rightarrow> 32 word \<Rightarrow> fs \<Rightarrow> state" where
  "setup_device t ms1 ms2 s =
     (let s1 = ensure_log_file s;
          s2 = (if t > TIME_FLOOR then pruneOlderThan (t - KEEP_SECONDS) s1 else s1)
      in \<lparr>lastSampleMs = ms1, lastPruneMs = ms2, store = s2\<rparr>)"

text \<open>What one pass of \<open>loop\<close> reads from the outside: the tick counter, the sensor, the
  clock, and the readings \<open>maybePrune\<close> takes.\<close>

record loop_inputs =
  tick :: "32 word"
  sensorT :: cfloat
  sensorH :: cfloat
  clock :: int
  pruneTick1 :: "32 word"
  pruneTick2 :: "32 word"
  pruneClock :: int

text \<open>The sampling branch of \<open>loop\<close> between the sensor reads and \<open>maybePrune\<close>: \<open>t\<close> and
  \<open>h\<close> are the sensor's values, \<open>clk\<close> the reading of \<open>nowUtc()\<close>.\<close>

definition logSample :: "cfloat \<Rightarrow> cfloat \<Rightarrow> int \<Rightarrow> fs \<Rightarrow> fs" where
  "logSample t h clk s =
     (if isnan t \<or> isnan h \<or> flt_lt t (- 40) \<or> flt_gt t 125 \<or> flt_lt h 0 \<or> flt_gt h 100
      then s
      else
        let ts = clk
        in if ts > TIME_FLOOR then appendReading ts t h s else s)"

definition loop :: "loop_inputs \<Rightarrow> state \<Rightarrow> state" where
  "loop i st =
     (if tick i - lastSampleMs st \<ge> SAMPLE_MS then
        let st1 = st\<lparr>lastSampleMs := lastSampleMs st + SAMPLE_MS\<rparr>;
            st2 = st1\<lparr>store := logSample (sensorT i) (sensorH i) (clock i) (store st1)\<rparr>
        in maybePrune (pruneTick1 i) (pruneTick2 i) (pruneClock i) st2
      else st)"

subsection \<open>Notions for stating the properties\<close>

text \<open>The lines a scan of the file sees: what the head of each of the three loops computes,
  \<open>readStringUntil('\n')\<close> followed by \<open>trim()\<close>, for as long as bytes are available.\<close>

function file_lines :: "string \<Rightarrow> string list" where
  "file_lines inp =
     (if inp = [] then []
      else trim (fst (readStringUntil newline inp)) # file_lines (snd (readStringUntil newline inp)))"
  by pat_completeness auto
termination
  by (relation "measure length") (auto simp: readStringUntil_shorter)

declare file_lines.simps [simp del]

definition log_lines :: "fs \<Rightarrow> string list" where
  "log_lines s = (case open_read s LOG_PATH of None \<Rightarrow> [] | Some inp \<Rightarrow> file_lines inp)"

text \<open>The timestamp every reader takes from a line: \<open>line.substring(0, c1).toInt()\<close>.\<close>

definition line_ts :: "string \<Rightarrow> int" where
  "line_ts line = toInt (substring line 0 (nat (indexOf comma 0 line)))"

text \<open>The structural test of \<open>sendHistorySince\<close>: a line that fails it is skipped there.\<close>

definition record_ok :: "string \<Rightarrow> bool" where
  "record_ok line =
     (length line \<ge> 5 \<and> indexOf comma 0 line > 0
      \<and> indexOf comma (nat (indexOf comma 0 line + 1)) line > indexOf comma 0 line)"

text \<open>The lines \<open>pruneOlderThan\<close> copies.\<close>

definition prune_keeps :: "int \<Rightarrow> string \<Rightarrow> bool" where
  "prune_keeps cutoffTs line =
     (length line \<ge> 5 \<and> indexOf comma 0 line > 0 \<and> line_ts line \<ge> cutoffTs)"

text \<open>The document a reader builds from a line that passed its test.\<close>

definition line_doc :: "(string \<Rightarrow> cfloat) \<Rightarrow> string \<Rightarrow> json_doc" where
  "line_doc toFloat line =
     (let c1 = indexOf comma 0 line;
          c2 = indexOf comma (nat (c1 + 1)) line
      in Doc (to_long (line_ts line))
           (toFloat (substring line (nat (c1 + 1)) (nat c2)))
           (toFloat (substring_from line (nat (c2 + 1)))))"

text \<open>The number that \<open>%.2f\<close> shows for a finite value: the value rounded to hundredths.\<close>

definition round2 :: "rat \<Rightarrow> rat" where
  "round2 q = (if q < 0 then - 1 else 1) * of_nat (round_half_even (\<bar>q\<bar> * 100)) / 100"

text \<open>The number a plain decimal numeral denotes: an optional minus sign, digits, and an
  optional point followed by digits.\<close>

definition dec_val :: "string \<Rightarrow> rat" where
  "dec_val s =
     (let neg = (s \<noteq> [] \<and> hd s = CHR ''-'');
          u = (if neg then tl s else s);
          ip = takeWhile isdigit u;
          r = dropWhile isdigit u;
          fp = (if r \<noteq> [] \<and> hd r = CHR ''.'' then takeWhile isdigit (tl r) else []);
          m = of_nat (digits_val ip) + of_nat (digits_val fp) / 10 ^ length fp
      in if neg then - m else m)"

text \<open>An instance of the \<open>toFloat\<close> parameter for the examples: the exact value of the
  numeral, without the rounding to the nearest \<open>float\<close>.\<close>

definition exact_toFloat :: "string \<Rightarrow> cfloat" where
  "exact_toFloat s = Finite (dec_val s)"

text \<open>A mounted, writable file system whose log file holds \<open>content\<close>.\<close>

definition fs_with_log :: "string \<Rightarrow> fs" where
  "fs_with_log content =
     \<lparr>mounted = True, writable = True, files = (\<lambda>p. if p = LOG_PATH then Some content else None)\<rparr>"

text \<open>A file content that is empty or ends with a newline, so that the next append starts a
  line of its own; and a file system whose log, if there is one, is such.\<close>

definition terminated :: "string \<Rightarrow> bool" where
  "terminated inp = (inp = [] \<or> last inp = newline)"

definition log_terminated :: "fs \<Rightarrow> bool" where
  "log_terminated s = (case files s LOG_PATH of None \<Rightarrow> True | Some inp \<Rightarrow> terminated inp)"

text \<open>A sequence of calls of \<open>appendReading\<close>, first to last.\<close>

definition append_all :: "(int \<times> cfloat \<times> cfloat) list \<Rightarrow> fs \<Rightarrow> fs" where
  "append_all rs s = foldl (\<lambda>s' (ts, t, h). appendReading ts t h s') s rs"

text \<open>Text without a comma, a NUL byte, a newline or white space: what \<open>%ld\<close> and \<open>%.2f\<close>
  print.\<close>

definition clean :: "string \<Rightarrow> bool" where
  "clean s = (\<forall>c\<in>set s. c \<noteq> comma \<and> c \<noteq> NUL \<and> c \<noteq> newline \<and> \<not> isspace c)"

text \<open>The scenario of the specification: readings at 1000, 1060 and 1120 appended to an
  empty log.\<close>

definition scenario_fs :: fs where
  "scenario_fs =
     append_all [(1000, Finite 20, Finite 50), (1060, Finite (41 / 2), Finite 51),
                 (1120, Finite 21, Finite (99 / 2))] (fs_with_log [])"

section \<open>Lemmas\<close>

subsection \<open>The loops as list operations on the lines of the file\<close>

lemma file_lines_Nil: "file_lines [] = []"
  by (simp add: file_lines.simps)

lemma file_lines_Cons:
  "inp \<noteq> [] \<Longrightarrow> file_lines inp =
     trim (fst (readStringUntil newline inp)) # file_lines (snd (readStringUntil newline inp))"
  by (subst file_lines.simps) simp

lemma historyLoop_lines:
  "historyLoop tf c inp sent =
     sent @ map (line_doc tf) (filter (\<lambda>l. record_ok l \<and> c \<le> line_ts l) (file_lines inp))"
proof (induction inp arbitrary: sent rule: file_lines.induct)
  case (1 inp)
  show ?case
  proof (cases "inp = []")
    case True
    then show ?thesis by (simp add: historyLoop.simps file_lines_Nil)
  next
    case False
    note IH = "1.IH" [OF False] and fl = file_lines_Cons [OF False]
    show ?thesis
      by (subst historyLoop.simps)
        (auto simp: IH fl False Let_def record_ok_def line_ts_def line_doc_def)
  qed
qed

lemma latestLoop_lines:
  "latestLoop inp lastLine =
     (if filter (\<lambda>l. length l > 5) (file_lines inp) = [] then lastLine
      else last (filter (\<lambda>l. length l > 5) (file_lines inp)))"
proof (induction inp arbitrary: lastLine rule: file_lines.induct)
  case (1 inp)
  show ?case
  proof (cases "inp = []")
    case True
    then show ?thesis by (simp add: latestLoop.simps file_lines_Nil)
  next
    case False
    note IH = "1.IH" [OF False] and fl = file_lines_Cons [OF False]
    show ?thesis
      by (subst latestLoop.simps)
        (auto simp: IH fl False Let_def)
  qed
qed

lemma pruneLoop_lines:
  "pruneLoop c inp out =
     out @ concat (map (\<lambda>l. l @ [carriage_return, newline]) (filter (prune_keeps c) (file_lines inp)))"
proof (induction inp arbitrary: out rule: file_lines.induct)
  case (1 inp)
  show ?case
  proof (cases "inp = []")
    case True
    then show ?thesis by (simp add: pruneLoop.simps file_lines_Nil)
  next
    case False
    note IH = "1.IH" [OF False] and fl = file_lines_Cons [OF False]
    show ?thesis
      by (subst pruneLoop.simps)
        (auto simp: IH fl False Let_def println_def prune_keeps_def [abs_def] line_ts_def)
  qed
qed

subsection \<open>Lines of a file; \<open>trim\<close>\<close>

lemma readStringUntil_terminated:
  "t \<notin> set a \<Longrightarrow> readStringUntil t (a @ t # b) = (a, b)"
proof -
  assume "t \<notin> set a"
  then have "\<forall>x\<in>set a. x \<noteq> t" by auto
  then show ?thesis by (simp add: readStringUntil_def takeWhile_append2 dropWhile_append2)
qed

lemma readStringUntil_unterminated:
  "t \<notin> set a \<Longrightarrow> readStringUntil t a = (a, [])"
proof -
  assume "t \<notin> set a"
  then have "\<forall>x\<in>set a. x \<noteq> t" by auto
  then have "takeWhile (\<lambda>c. c \<noteq> t) a = a" and "dropWhile (\<lambda>c. c \<noteq> t) a = []"
    by simp_all
  then show ?thesis by (simp only: readStringUntil_def) simp
qed

lemma file_lines_terminated:
  "newline \<notin> set a \<Longrightarrow> file_lines (a @ newline # b) = trim a # file_lines b"
  by (subst file_lines.simps) (simp add: readStringUntil_terminated)

lemma file_lines_unterminated:
  "newline \<notin> set a \<Longrightarrow> a \<noteq> [] \<Longrightarrow> file_lines a = [trim a]"
  by (subst file_lines.simps) (simp add: readStringUntil_unterminated file_lines_Nil)

lemma split_at_terminator:
  "t \<in> set a \<Longrightarrow> a = fst (readStringUntil t a) @ t # snd (readStringUntil t a)"
proof -
  assume "t \<in> set a"
  then have "dropWhile (\<lambda>c. c \<noteq> t) a \<noteq> []" by (simp add: dropWhile_eq_Nil_conv)
  then obtain r where r: "dropWhile (\<lambda>c. c \<noteq> t) a = t # r"
    using hd_dropWhile [of "\<lambda>c. c \<noteq> t" a] by (cases "dropWhile (\<lambda>c. c \<noteq> t) a") auto
  have "a = takeWhile (\<lambda>c. c \<noteq> t) a @ dropWhile (\<lambda>c. c \<noteq> t) a" by simp
  then show ?thesis by (simp add: readStringUntil_def r)
qed

lemma fst_readStringUntil_free: "t \<notin> set (fst (readStringUntil t a))"
  by (auto simp: readStringUntil_def dest: set_takeWhileD)

lemma file_lines_append:
  "a = [] \<or> last a = newline \<Longrightarrow> file_lines (a @ b) = file_lines a @ file_lines b"
proof (induction a rule: file_lines.induct)
  case (1 a)
  show ?case
  proof (cases "a = []")
    case True
    then show ?thesis by (simp add: file_lines_Nil)
  next
    case False
    with "1.prems" have la: "last a = newline" by simp
    then have "newline \<in> set a" using False last_in_set by metis
    from split_at_terminator [OF this]
    obtain l r where a: "a = l @ newline # r" and l: "l = fst (readStringUntil newline a)"
      and r: "r = snd (readStringUntil newline a)" by blast
    have lf: "newline \<notin> set l" unfolding l by (rule fst_readStringUntil_free)
    have "r = [] \<or> last r = newline" using la a by (cases "r = []") auto
    then have IH: "file_lines (r @ b) = file_lines r @ file_lines b"
      using "1.IH" [OF False] r by simp
    have "file_lines (a @ b) = trim l # file_lines (r @ b)"
      using file_lines_terminated [OF lf, of "r @ b"] a by simp
    moreover have "file_lines a = trim l # file_lines r"
      using file_lines_terminated [OF lf, of r] a by simp
    ultimately show ?thesis using IH by simp
  qed
qed

lemma trim_Nil: "trim [] = []"
  by (simp add: trim_def)

lemma set_trim: "set (trim s) \<subseteq> set s"
proof -
  have "set (trim s) = set (dropWhile isspace (rev (dropWhile isspace s)))" by (simp add: trim_def)
  also have "\<dots> \<subseteq> set (rev (dropWhile isspace s))" by (auto dest: set_dropWhileD)
  also have "\<dots> \<subseteq> set s" by (auto dest: set_dropWhileD)
  finally show ?thesis .
qed

lemma trim_hd: "trim s \<noteq> [] \<Longrightarrow> \<not> isspace (hd (trim s))"
proof -
  assume ne: "trim s \<noteq> []"
  let ?d = "dropWhile isspace s"
  have dne: "?d \<noteq> []"
  proof
    assume "?d = []"
    then have "trim s = []" by (simp only: trim_def) simp
    with ne show False by simp
  qed
  then have h: "\<not> isspace (hd ?d)" by (rule hd_dropWhile)
  have "rev ?d = rev (tl ?d) @ [hd ?d]" using dne by (cases ?d) auto
  then have "dropWhile isspace (rev ?d) = dropWhile isspace (rev (tl ?d)) @ [hd ?d]"
    using h by (simp add: dropWhile_append)
  then have "trim s = hd ?d # rev (dropWhile isspace (rev (tl ?d)))" by (simp add: trim_def)
  then show ?thesis using h by simp
qed

lemma trim_last: "trim s \<noteq> [] \<Longrightarrow> \<not> isspace (last (trim s))"
proof -
  assume ne: "trim s \<noteq> []"
  let ?e = "dropWhile isspace (rev (dropWhile isspace s))"
  have "?e \<noteq> []" using ne by (simp add: trim_def)
  then have "\<not> isspace (hd ?e)" by (rule hd_dropWhile)
  moreover have "last (trim s) = hd ?e" using \<open>?e \<noteq> []\<close> by (simp add: trim_def last_rev)
  ultimately show ?thesis by simp
qed

lemma trim_id:
  "s = [] \<or> (\<not> isspace (hd s) \<and> \<not> isspace (last s)) \<Longrightarrow> trim s = s"
proof (cases "s = []")
  case True then show ?thesis by (simp add: trim_Nil)
next
  case False
  assume "s = [] \<or> (\<not> isspace (hd s) \<and> \<not> isspace (last s))"
  with False have h: "\<not> isspace (hd s)" and l: "\<not> isspace (last s)" by auto
  have "dropWhile isspace s = s" using h False by (cases s) auto
  moreover have "dropWhile isspace (rev s) = rev s"
    using l False by (cases "rev s") (auto simp: last_rev [symmetric] simp del: last_rev)
  ultimately show ?thesis by (simp add: trim_def)
qed

lemma trim_trim: "trim (trim s) = trim s"
  by (rule trim_id) (use trim_hd trim_last in blast)

lemma trim_snoc_space: "isspace c \<Longrightarrow> trim (s @ [c]) = trim s"
proof -
  assume c: "isspace c"
  show ?thesis
  proof (cases "dropWhile isspace s = []")
    case True
    then have "\<forall>x\<in>set s. isspace x" by (simp add: dropWhile_eq_Nil_conv)
    then have "dropWhile isspace (s @ [c]) = []" using c by (simp add: dropWhile_eq_Nil_conv)
    then show ?thesis by (simp only: trim_def True)
  next
    case False
    then obtain x where "x \<in> set s" and "\<not> isspace x"
      by (auto simp: dropWhile_eq_Nil_conv)
    then have "dropWhile isspace (s @ [c]) = dropWhile isspace s @ [c]"
      by (rule dropWhile_append1)
    then show ?thesis using c by (simp add: trim_def)
  qed
qed

lemma file_lines_trimmed:
  "l \<in> set (file_lines inp) \<Longrightarrow> trim l = l \<and> newline \<notin> set l"
proof (induction inp rule: file_lines.induct)
  case (1 inp)
  show ?case
  proof (cases "inp = []")
    case True
    with "1.prems" show ?thesis by (simp add: file_lines_Nil)
  next
    case False
    from "1.prems" file_lines_Cons [OF False]
    consider "l = trim (fst (readStringUntil newline inp))"
      | "l \<in> set (file_lines (snd (readStringUntil newline inp)))" by auto
    then show ?thesis
    proof cases
      case 1
      then show ?thesis
        using set_trim [of "fst (readStringUntil newline inp)"]
          fst_readStringUntil_free [of newline inp] by (auto simp: trim_trim)
    next
      case 2
      then show ?thesis by (rule "1.IH" [OF False])
    qed
  qed
qed

lemma file_lines_println:
  "\<forall>l\<in>set ls. newline \<notin> set l \<Longrightarrow>
   file_lines (concat (map (\<lambda>l. l @ [carriage_return, newline]) ls)) = map trim ls"
proof (induction ls)
  case Nil
  then show ?case by (simp add: file_lines_Nil)
next
  case (Cons l ls)
  have "newline \<notin> set (l @ [carriage_return])"
    using Cons.prems by (simp add: newline_def carriage_return_def)
  from file_lines_terminated [OF this]
  have "file_lines (concat (map (\<lambda>l. l @ [carriage_return, newline]) (l # ls)))
      = trim (l @ [carriage_return]) # file_lines (concat (map (\<lambda>l. l @ [carriage_return, newline]) ls))"
    by simp
  moreover have "isspace carriage_return" by (simp add: isspace_def carriage_return_def)
  ultimately show ?case using Cons by (simp add: trim_snoc_space)
qed

lemma file_lines_pruneLoop:
  "file_lines (pruneLoop c inp []) = filter (prune_keeps c) (file_lines inp)"
proof -
  let ?ls = "filter (prune_keeps c) (file_lines inp)"
  have t: "\<forall>l\<in>set ?ls. trim l = l \<and> newline \<notin> set l"
    using file_lines_trimmed by auto
  then have "file_lines (pruneLoop c inp []) = map trim ?ls"
    by (simp add: pruneLoop_lines file_lines_println)
  also have "\<dots> = ?ls" by (rule map_idI) (use t in blast)
  finally show ?thesis .
qed

lemma paths_differ: "LOG_PATH \<noteq> TMP_PATH"
  by (simp add: LOG_PATH_def TMP_PATH_def)

lemma log_lines_prune:
  "can_open_write s \<Longrightarrow> log_lines (pruneOlderThan c s) = filter (prune_keeps c) (log_lines s)"
  using paths_differ
  by (auto simp: log_lines_def pruneOlderThan_def open_read_def can_open_write_def Let_def
      file_lines_pruneLoop split: option.splits)

subsection \<open>Digits, \<open>%ld\<close>, \<open>atol\<close>\<close>

lemma of_char_digit_char: "d < 10 \<Longrightarrow> (of_char (digit_char d) :: nat) = 48 + d"
  by (simp add: digit_char_def)

lemma isdigit_digit_char: "d < 10 \<Longrightarrow> isdigit (digit_char d)"
  by (simp add: isdigit_def of_char_digit_char)

lemma digit_val_digit_char: "d < 10 \<Longrightarrow> digit_val (digit_char d) = d"
  by (simp add: digit_val_def of_char_digit_char)

lemma isdigit_clean: "isdigit c \<Longrightarrow> c \<noteq> comma \<and> c \<noteq> NUL \<and> c \<noteq> newline \<and> \<not> isspace c"
  by (auto simp: isdigit_def comma_def NUL_def newline_def isspace_def)

lemma isdigit_not_sign: "isdigit c \<Longrightarrow> c \<noteq> CHR ''-'' \<and> c \<noteq> CHR ''+'' \<and> c \<noteq> CHR ''.''"
  by (auto simp: isdigit_def)

lemma show_nat_digits: "\<forall>c\<in>set (show_nat n). isdigit c"
proof (induction n rule: show_nat.induct)
  case (1 n)
  show ?case
  proof (cases "n < 10")
    case True
    then show ?thesis by (subst show_nat.simps) (simp add: isdigit_digit_char)
  next
    case False
    then show ?thesis using "1.IH" by (subst show_nat.simps) (simp add: isdigit_digit_char)
  qed
qed

lemma show_nat_nonempty: "show_nat n \<noteq> []"
  by (subst show_nat.simps) simp

lemma digits_val_snoc: "digits_val (ds @ [c]) = 10 * digits_val ds + digit_val c"
  by (simp add: digits_val_def)

lemma digits_val_show_nat: "digits_val (show_nat n) = n"
proof (induction n rule: show_nat.induct)
  case (1 n)
  show ?case
  proof (cases "n < 10")
    case True
    then show ?thesis by (subst show_nat.simps) (simp add: digits_val_def digit_val_digit_char)
  next
    case False
    then show ?thesis using "1.IH"
      by (subst show_nat.simps) (simp add: digits_val_snoc digit_val_digit_char)
  qed
qed

lemma takeWhile_all: "\<forall>c\<in>set s. P c \<Longrightarrow> takeWhile P s = s"
  by simp

lemma atol_fmt_ld:
  assumes "LONG_MIN \<le> n" and "n \<le> LONG_MAX"
  shows "atol (fmt_ld n) = n"
proof (cases "n < 0")
  case True
  let ?ds = "show_nat (nat (- n))"
  have tw: "takeWhile isdigit ?ds = ?ds" by (rule takeWhile_all) (rule show_nat_digits)
  have "\<not> isspace (CHR ''-'')" by (simp add: isspace_def)
  then have "atol (CHR ''-'' # ?ds) = max LONG_MIN (- int (digits_val ?ds))"
    by (simp add: atol_def tw)
  then show ?thesis using True assms by (simp add: fmt_ld_def digits_val_show_nat)
next
  case False
  let ?ds = "show_nat (nat n)"
  have tw: "takeWhile isdigit ?ds = ?ds" by (rule takeWhile_all) (rule show_nat_digits)
  have ne: "?ds \<noteq> []" by (rule show_nat_nonempty)
  then have "hd ?ds \<in> set ?ds" by simp
  then have d: "isdigit (hd ?ds)" using show_nat_digits by blast
  then have "\<not> isspace (hd ?ds)" and "hd ?ds \<noteq> CHR ''-''" and "hd ?ds \<noteq> CHR ''+''"
    using isdigit_clean isdigit_not_sign by blast+
  moreover from this ne have "dropWhile isspace ?ds = ?ds" by (cases ?ds) auto
  ultimately have "atol ?ds = min LONG_MAX (int (digits_val ?ds))"
    using ne by (simp add: atol_def tw)
  then show ?thesis using False assms by (simp add: fmt_ld_def digits_val_show_nat)
qed

lemma to_long_range: "LONG_MIN \<le> to_long x \<and> to_long x \<le> LONG_MAX"
  by (simp add: to_long_def LONG_MIN_def LONG_MAX_def)

lemma to_long_id: "LONG_MIN \<le> x \<Longrightarrow> x \<le> LONG_MAX \<Longrightarrow> to_long x = x"
  by (simp add: to_long_def LONG_MIN_def LONG_MAX_def)

lemma atol_range: "LONG_MIN \<le> atol s \<and> atol s \<le> LONG_MAX"
  by (simp add: atol_def Let_def LONG_MIN_def LONG_MAX_def)

lemma to_long_toInt: "to_long (toInt s) = toInt s"
  using atol_range [of s] by (simp add: toInt_def to_long_id)

lemma clean_append: "clean (a @ b) \<longleftrightarrow> clean a \<and> clean b"
  by (auto simp: clean_def)

lemma clean_digits: "\<forall>c\<in>set s. isdigit c \<Longrightarrow> clean s"
  using isdigit_clean by (auto simp: clean_def)

lemma clean_fmt_ld: "clean (fmt_ld n)"
proof -
  have "clean ''-''" by (simp add: clean_def comma_def NUL_def newline_def isspace_def)
  then show ?thesis
    using clean_append [of "''-''"] clean_digits [OF show_nat_digits] by (simp add: fmt_ld_def)
qed

lemma fmt_ld_nonempty: "fmt_ld n \<noteq> []"
  by (simp add: fmt_ld_def show_nat_nonempty)

lemma clean_fmt_2f: "clean (fmt_2f x)"
proof (cases x)
  case (Finite q)
  let ?k = "round_half_even (\<bar>q\<bar> * 100)"
  have a: "clean ''-''" "clean ''.''" "clean []"
    by (simp_all add: clean_def comma_def NUL_def newline_def isspace_def)
  have b: "clean (show_nat (?k div 100))" by (rule clean_digits [OF show_nat_digits])
  have c: "clean [digit_char (?k mod 100 div 10), digit_char (?k mod 10)]"
    by (rule clean_digits) (simp add: isdigit_digit_char)
  show ?thesis using a b c by (simp add: Finite fmt_2f_def Let_def clean_append del: append.simps)
qed (simp_all add: fmt_2f_def clean_def comma_def NUL_def newline_def isspace_def)

lemma fmt_2f_length: "length (fmt_2f (Finite q)) \<ge> 4"
  using show_nat_nonempty [of "round_half_even (\<bar>q\<bar> * 100) div 100"]
  by (cases "show_nat (round_half_even (\<bar>q\<bar> * 100) div 100)") (auto simp: fmt_2f_def Let_def)

lemma fmt_2f_nonempty: "fmt_2f x \<noteq> []"
proof (cases x)
  case (Finite q)
  then show ?thesis using fmt_2f_length [of q] by auto
qed (simp_all add: fmt_2f_def)

subsection \<open>Splitting a line at its commas\<close>

lemma indexOf_found:
  assumes "\<forall>c\<in>set P. c \<noteq> ch \<and> c \<noteq> NUL" and "ch \<noteq> NUL"
  shows "indexOf ch (length Q) (Q @ P @ ch # R) = int (length Q + length P)"
proof -
  have nn: "\<forall>c\<in>set P. c \<noteq> NUL" and nc: "\<forall>c\<in>set P. c \<noteq> ch" using assms(1) by auto
  have t: "takeWhile (\<lambda>c. c \<noteq> NUL) (P @ ch # R) = P @ ch # takeWhile (\<lambda>c. c \<noteq> NUL) R"
    using nn assms(2) by (simp add: takeWhile_append2)
  have "takeWhile (\<lambda>c. c \<noteq> ch) (P @ ch # takeWhile (\<lambda>c. c \<noteq> NUL) R) = P"
    using nc by (simp add: takeWhile_append2)
  then show ?thesis by (simp add: indexOf_def t)
qed

lemma substring_mid: "substring (Q @ P @ R) (length Q) (length Q + length P) = P"
  by (cases "P = [] \<and> R = []") (auto simp: substring_def Let_def)

lemma substring_from_tail: "substring_from (Q @ R) (length Q) = R"
  by (cases "R = []") (auto simp: substring_from_def substring_def Let_def)

lemma comma_not_NUL: "comma \<noteq> NUL"
  by (simp add: comma_def NUL_def)

lemma clean_chars: "clean s \<Longrightarrow> \<forall>c\<in>set s. c \<noteq> comma \<and> c \<noteq> NUL"
  by (simp add: clean_def)

lemma three_fields_c1:
  "clean A \<Longrightarrow> indexOf comma 0 (A @ comma # B @ comma # C) = int (length A)"
proof -
  assume "clean A"
  then have "\<forall>c\<in>set A. c \<noteq> comma \<and> c \<noteq> NUL" by (rule clean_chars)
  from indexOf_found [where Q = "[]" and R = "B @ comma # C", OF this comma_not_NUL]
  show ?thesis by simp
qed

lemma three_fields_c2:
  "clean B \<Longrightarrow>
   indexOf comma (Suc (length A)) (A @ comma # B @ comma # C) = int (length A + 1 + length B)"
proof -
  assume "clean B"
  then have "\<forall>c\<in>set B. c \<noteq> comma \<and> c \<noteq> NUL" by (rule clean_chars)
  from indexOf_found [where Q = "A @ [comma]" and R = C, OF this comma_not_NUL]
  show ?thesis by simp
qed

lemma three_fields_trim:
  assumes "clean A" and "clean C" and "A \<noteq> []"
  shows "trim (A @ comma # B @ comma # C) = A @ comma # B @ comma # C"
proof (rule trim_id, rule disjI2, rule conjI)
  have "hd A \<in> set A" using assms(3) by simp
  then show "\<not> isspace (hd (A @ comma # B @ comma # C))"
    using assms(1,3) by (simp add: clean_def)
  have "\<not> isspace comma" by (simp add: isspace_def comma_def)
  moreover have "C \<noteq> [] \<Longrightarrow> \<not> isspace (last C)"
    using assms(2) last_in_set [of C] by (auto simp: clean_def)
  ultimately show "\<not> isspace (last (A @ comma # B @ comma # C))" by simp
qed

lemma clean_no_newline: "clean s \<Longrightarrow> newline \<notin> set s"
  unfolding clean_def by blast

lemma comma_not_newline: "newline \<noteq> comma"
  by (simp add: comma_def newline_def)

lemma three_fields_no_newline:
  "clean A \<Longrightarrow> clean B \<Longrightarrow> clean C \<Longrightarrow> newline \<notin> set (A @ comma # B @ comma # C)"
  using comma_not_newline by (simp add: clean_no_newline)

lemma three_fields_ts:
  "clean A \<Longrightarrow> A \<noteq> [] \<Longrightarrow> line_ts (A @ comma # B @ comma # C) = toInt A"
  using substring_mid [where Q = "[]" and P = A and R = "comma # B @ comma # C"]
  by (simp add: line_ts_def three_fields_c1)

lemma three_fields_doc:
  assumes "clean A" and "clean B" and "A \<noteq> []"
  shows "line_doc tf (A @ comma # B @ comma # C) = Doc (to_long (toInt A)) (tf B) (tf C)"
proof -
  let ?L = "A @ comma # B @ comma # C"
  have c1: "indexOf comma 0 ?L = int (length A)" by (rule three_fields_c1 [OF assms(1)])
  have c2: "indexOf comma (Suc (length A)) ?L = int (length A + 1 + length B)"
    by (rule three_fields_c2 [OF assms(2)])
  have sB: "substring ?L (Suc (length A)) (Suc (length A + length B)) = B"
    using substring_mid [where Q = "A @ [comma]" and P = B and R = "comma # C"] by simp
  have sC: "substring_from ?L (Suc (Suc (length A + length B))) = C"
    using substring_from_tail [where Q = "A @ comma # B @ [comma]" and R = C] by simp
  show ?thesis
    by (simp add: line_doc_def Let_def c1 c2 nat_add_distrib sB sC
        three_fields_ts [OF assms(1,3)])
qed

lemma three_fields_ok:
  assumes "clean A" and "clean B" and "A \<noteq> []"
  shows "record_ok (A @ comma # B @ comma # C) \<longleftrightarrow> 5 \<le> length (A @ comma # B @ comma # C)"
  using assms(3)
  by (simp add: record_ok_def three_fields_c1 [OF assms(1)] three_fields_c2 [OF assms(2)]
      nat_add_distrib)

subsection \<open>The line of a reading\<close>

lemma reading_line_fields:
  "reading_line ts t h = (fmt_ld (to_long ts) @ comma # fmt_2f t @ comma # fmt_2f h) @ [newline]"
  by (simp add: reading_line_def)

lemma reading_line_no_newline:
  "newline \<notin> set (fmt_ld (to_long ts) @ comma # fmt_2f t @ comma # fmt_2f h)"
  by (rule three_fields_no_newline [OF clean_fmt_ld clean_fmt_2f clean_fmt_2f])

lemma reading_line_trim:
  "trim (fmt_ld (to_long ts) @ comma # fmt_2f t @ comma # fmt_2f h)
     = fmt_ld (to_long ts) @ comma # fmt_2f t @ comma # fmt_2f h"
  by (rule three_fields_trim [OF clean_fmt_ld clean_fmt_2f fmt_ld_nonempty])

lemma reading_line_length:
  "9 \<le> length (fmt_ld (to_long ts) @ comma # fmt_2f t @ comma # fmt_2f h)"
proof -
  have "3 \<le> length (fmt_2f x)" for x
  proof (cases x)
    case (Finite q)
    then show ?thesis using fmt_2f_length [of q] by simp
  qed (simp_all add: fmt_2f_def)
  from this [of t] this [of h] fmt_ld_nonempty [of "to_long ts"]
  show ?thesis by (cases "fmt_ld (to_long ts)") auto
qed

lemma reading_line_length_finite:
  "11 \<le> length (fmt_ld (to_long ts) @ comma # fmt_2f (Finite qt) @ comma # fmt_2f (Finite qh))"
  using fmt_2f_length [of qt] fmt_2f_length [of qh] fmt_ld_nonempty [of "to_long ts"]
  by (cases "fmt_ld (to_long ts)") auto

lemma reading_line_ok:
  "record_ok (fmt_ld (to_long ts) @ comma # fmt_2f t @ comma # fmt_2f h)"
  using reading_line_length [of ts t h]
  by (simp only: three_fields_ok [OF clean_fmt_ld clean_fmt_2f fmt_ld_nonempty])

lemma reading_line_ts:
  "line_ts (fmt_ld (to_long ts) @ comma # fmt_2f t @ comma # fmt_2f h) = to_long ts"
  using to_long_range [of ts]
  by (simp add: three_fields_ts [OF clean_fmt_ld fmt_ld_nonempty] toInt_def atol_fmt_ld)

lemma reading_line_doc:
  "line_doc tf (fmt_ld (to_long ts) @ comma # fmt_2f t @ comma # fmt_2f h)
     = Doc (to_long ts) (tf (fmt_2f t)) (tf (fmt_2f h))"
  using to_long_range [of ts]
  by (simp add: three_fields_doc [OF clean_fmt_ld clean_fmt_2f fmt_ld_nonempty] toInt_def
      atol_fmt_ld to_long_id)

text \<open>Appending to a log that is empty or ends with a newline adds one line to the scan.\<close>

lemma file_lines_append_reading:
  "terminated inp \<Longrightarrow>
   file_lines (inp @ reading_line ts t h)
     = file_lines inp @ [fmt_ld (to_long ts) @ comma # fmt_2f t @ comma # fmt_2f h]"
proof -
  assume "terminated inp"
  then have "file_lines (inp @ reading_line ts t h) = file_lines inp @ file_lines (reading_line ts t h)"
    by (simp add: terminated_def file_lines_append)
  moreover have "file_lines (reading_line ts t h)
      = [fmt_ld (to_long ts) @ comma # fmt_2f t @ comma # fmt_2f h]"
    using file_lines_terminated [OF reading_line_no_newline, of ts t h "[]"]
    by (simp add: reading_line_fields reading_line_trim file_lines_Nil)
  ultimately show ?thesis by simp
qed

lemma terminated_append_reading: "terminated (inp @ reading_line ts t h)"
  by (simp add: terminated_def reading_line_def)

subsection \<open>Rounding to hundredths\<close>

lemma round_half_even_error:
  assumes "0 \<le> x"
  shows "\<bar>of_nat (round_half_even x) - x\<bar> \<le> 1 / 2"
proof -
  let ?f = "nat \<lfloor>x\<rfloor>"
  have fl: "of_nat ?f = (of_int \<lfloor>x\<rfloor> :: rat)" using assms by simp
  have lo: "of_int \<lfloor>x\<rfloor> \<le> x" and hi: "x < of_int \<lfloor>x\<rfloor> + 1" by linarith+
  show ?thesis
    using lo hi by (auto simp: round_half_even_def Let_def fl)
qed

lemma round_half_even_le:
  assumes "0 \<le> x" and "x \<le> of_nat N"
  shows "round_half_even x \<le> N"
proof -
  let ?f = "nat \<lfloor>x\<rfloor>"
  have fl: "of_nat ?f = (of_int \<lfloor>x\<rfloor> :: rat)" using assms by simp
  have lo: "of_int \<lfloor>x\<rfloor> \<le> x" by linarith
  have "\<lfloor>x\<rfloor> \<le> int N" using assms(2) by (simp add: floor_le_iff)
  then have fN: "?f \<le> N" by simp
  show ?thesis
  proof (cases "?f = N")
    case True
    then have "x - of_nat ?f \<le> 0" using assms(2) by simp
    then show ?thesis using True by (simp add: round_half_even_def Let_def)
  next
    case False
    then have "?f + 1 \<le> N" using fN by simp
    then show ?thesis using fN by (simp add: round_half_even_def Let_def)
  qed
qed

lemma round2_error: "\<bar>round2 q - q\<bar> \<le> 1 / 200"
proof -
  have e: "\<bar>of_nat (round_half_even (\<bar>q\<bar> * 100)) - \<bar>q\<bar> * 100\<bar> \<le> 1 / 2"
    by (rule round_half_even_error) simp
  show ?thesis
  proof (cases "q < 0")
    case True
    then show ?thesis using e by (simp add: round2_def abs_if field_simps split: if_splits)
  next
    case False
    then show ?thesis using e by (simp add: round2_def abs_if field_simps split: if_splits)
  qed
qed

lemma round2_range:
  assumes "- of_nat L \<le> q" and "q \<le> of_nat H"
  shows "- of_nat L \<le> round2 q \<and> round2 q \<le> of_nat H"
proof (cases "q < 0")
  case True
  then have "\<bar>q\<bar> * 100 \<le> of_nat (L * 100)" using assms(1) by simp
  then have "round_half_even (\<bar>q\<bar> * 100) \<le> L * 100"
    by (intro round_half_even_le) simp_all
  then have "(of_nat (round_half_even (\<bar>q\<bar> * 100)) :: rat) \<le> of_nat (L * 100)"
    by (simp only: of_nat_le_iff)
  moreover have "(0::rat) \<le> of_nat (round_half_even (\<bar>q\<bar> * 100))" by simp
  ultimately show ?thesis using True by (simp add: round2_def)
next
  case False
  then have "\<bar>q\<bar> * 100 \<le> of_nat (H * 100)" using assms(2) by simp
  then have "round_half_even (\<bar>q\<bar> * 100) \<le> H * 100"
    by (intro round_half_even_le) simp_all
  then have "(of_nat (round_half_even (\<bar>q\<bar> * 100)) :: rat) \<le> of_nat (H * 100)"
    by (simp only: of_nat_le_iff)
  moreover have "(0::rat) \<le> of_nat (round_half_even (\<bar>q\<bar> * 100))" by simp
  ultimately show ?thesis using False by (simp add: round2_def)
qed

subsection \<open>The decimal value of \<open>%.2f\<close> text\<close>

lemma not_isdigit_point: "\<not> isdigit (CHR ''.'')"
  by (simp add: isdigit_def)

lemma takeWhile_digits_point:
  "\<forall>c\<in>set ds. isdigit c \<Longrightarrow> takeWhile isdigit (ds @ CHR ''.'' # r) = ds"
  using not_isdigit_point by (simp add: takeWhile_append2)

lemma dropWhile_digits_point:
  "\<forall>c\<in>set ds. isdigit c \<Longrightarrow> dropWhile isdigit (ds @ CHR ''.'' # r) = CHR ''.'' # r"
  using not_isdigit_point by (simp add: dropWhile_append2)

lemma dec_val_parts:
  "s \<noteq> [] \<Longrightarrow> hd s \<noteq> CHR ''-'' \<Longrightarrow> takeWhile isdigit s = ip \<Longrightarrow>
   dropWhile isdigit s = CHR ''.'' # fr \<Longrightarrow> takeWhile isdigit fr = fp \<Longrightarrow>
   dec_val s = of_nat (digits_val ip) + of_nat (digits_val fp) / 10 ^ length fp"
  by (simp add: dec_val_def Let_def)

lemma dec_val_unsigned:
  assumes "d1 < 10" and "d0 < 10"
  shows "dec_val (show_nat n @ [CHR ''.'', digit_char d1, digit_char d0])
           = of_nat n + of_nat (10 * d1 + d0) / 100"
proof -
  let ?s = "show_nat n @ [CHR ''.'', digit_char d1, digit_char d0]"
  have ne: "show_nat n \<noteq> []" by (rule show_nat_nonempty)
  then have "hd ?s = hd (show_nat n)" by simp
  moreover have "hd (show_nat n) \<in> set (show_nat n)" using ne by simp
  ultimately have "isdigit (hd ?s)" using show_nat_digits by metis
  then have nneg: "hd ?s \<noteq> CHR ''-''" using isdigit_not_sign by blast
  have sne: "?s \<noteq> []" by simp
  have tw: "takeWhile isdigit ?s = show_nat n"
    by (rule takeWhile_digits_point) (rule show_nat_digits)
  have dw: "dropWhile isdigit ?s = CHR ''.'' # [digit_char d1, digit_char d0]"
    by (rule dropWhile_digits_point) (rule show_nat_digits)
  have fp: "takeWhile isdigit [digit_char d1, digit_char d0] = [digit_char d1, digit_char d0]"
    using assms by (simp add: isdigit_digit_char)
  have dv: "digits_val [digit_char d1, digit_char d0] = 10 * d1 + d0"
    using assms by (simp add: digits_val_def digit_val_digit_char)
  show ?thesis
    unfolding dec_val_parts [OF sne nneg tw dw fp] dv digits_val_show_nat by simp
qed

lemma dec_val_minus:
  "s \<noteq> [] \<Longrightarrow> hd s \<noteq> CHR ''-'' \<Longrightarrow> dec_val (CHR ''-'' # s) = - dec_val s"
  by (simp add: dec_val_def Let_def)

lemma show_nat_hd_not_minus: "hd (show_nat n @ r) \<noteq> CHR ''-''"
proof -
  have ne: "show_nat n \<noteq> []" by (rule show_nat_nonempty)
  then have "hd (show_nat n @ r) \<in> set (show_nat n)" by simp
  then have "isdigit (hd (show_nat n @ r))" using show_nat_digits by blast
  then show ?thesis using isdigit_not_sign by blast
qed

lemma dec_val_fmt_2f: "dec_val (fmt_2f (Finite q)) = round2 q"
proof -
  let ?k = "round_half_even (\<bar>q\<bar> * 100)"
  let ?u = "show_nat (?k div 100) @ [CHR ''.'', digit_char (?k mod 100 div 10), digit_char (?k mod 10)]"
  have d: "?k mod 100 div 10 < 10" "?k mod 10 < 10" by simp_all
  have "?k mod 100 mod 10 = ?k mod 10" by (rule mod_mod_cancel) simp
  then have "10 * (?k mod 100 div 10) + ?k mod 10 = ?k mod 100"
    using mult_div_mod_eq [of 10 "?k mod 100"] by simp
  then have "dec_val ?u = of_nat (?k div 100) + of_nat (?k mod 100) / 100"
    using dec_val_unsigned [OF d, of "?k div 100"] by simp
  also have "\<dots> = of_nat ?k / 100"
  proof -
    have "(of_nat ?k :: rat) = of_nat (100 * (?k div 100) + ?k mod 100)" by simp
    also have "\<dots> = 100 * of_nat (?k div 100) + of_nat (?k mod 100)"
      by (simp only: of_nat_add of_nat_mult of_nat_numeral)
    finally show ?thesis by simp
  qed
  finally have u: "dec_val ?u = of_nat ?k / 100" .
  show ?thesis
  proof (cases "q < 0")
    case True
    have "dec_val (CHR ''-'' # ?u) = - dec_val ?u"
      using show_nat_hd_not_minus [of "?k div 100" "[]"]
      by (intro dec_val_minus) (simp_all add: show_nat_nonempty)
    then show ?thesis using True u by (simp add: fmt_2f_def Let_def round2_def)
  next
    case False
    then show ?thesis using u by (simp add: fmt_2f_def Let_def round2_def)
  qed
qed

subsection \<open>Queries and appends on the file system\<close>

lemma open_read_fs_with_log: "open_read (fs_with_log c) LOG_PATH = Some c"
  by (simp add: open_read_def fs_with_log_def)

lemma log_lines_fs_with_log: "log_lines (fs_with_log c) = file_lines c"
  by (simp add: log_lines_def open_read_fs_with_log)

lemma can_open_write_fs_with_log: "can_open_write (fs_with_log c)"
  by (simp add: can_open_write_def fs_with_log_def)

lemma log_terminated_fs_with_log: "log_terminated (fs_with_log c) = terminated c"
  by (simp add: log_terminated_def fs_with_log_def)

lemma sendHistorySince_lines:
  "sendHistorySince tf c s
     = map (line_doc tf) (filter (\<lambda>l. record_ok l \<and> c \<le> line_ts l) (log_lines s))"
  by (simp add: sendHistorySince_def log_lines_def historyLoop_lines split: option.splits)

lemma handleLatest_lines:
  "handleLatest tf s =
     (if filter (\<lambda>l. length l > 5) (log_lines s) = [] then (404, ErrorBody ''no_data'')
      else if record_ok (last (filter (\<lambda>l. length l > 5) (log_lines s)))
           then (200, DocBody (line_doc tf (last (filter (\<lambda>l. length l > 5) (log_lines s)))))
           else (500, ErrorBody ''bad_log_format''))"
proof (cases "open_read s LOG_PATH")
  case None
  then show ?thesis by (simp add: handleLatest_def log_lines_def)
next
  case (Some inp)
  let ?ls = "filter (\<lambda>l. length l > 5) (file_lines inp)"
  show ?thesis
  proof (cases "?ls = []")
    case True
    then have "latestLoop inp [] = []" by (simp add: latestLoop_lines)
    then show ?thesis using True Some by (simp add: handleLatest_def log_lines_def)
  next
    case False
    then have ll: "latestLoop inp [] = last ?ls" by (simp add: latestLoop_lines)
    have "last ?ls \<in> set ?ls" using False by (rule last_in_set)
    then have len: "5 < length (last ?ls)" by simp
    show ?thesis
      using False Some len
      by (simp add: handleLatest_def log_lines_def ll Let_def record_ok_def line_doc_def
          line_ts_def not_less not_le)
  qed
qed

lemma doc_ts_line_doc: "doc_ts (line_doc tf l) = line_ts l"
  by (simp add: line_doc_def Let_def line_ts_def to_long_toInt)

lemma log_lines_appendReading:
  assumes "can_open_write s" and "log_terminated s"
  shows "log_lines (appendReading ts t h s)
           = log_lines s @ [fmt_ld (to_long ts) @ comma # fmt_2f t @ comma # fmt_2f h]"
proof (cases "files s LOG_PATH")
  case None
  have "terminated []" by (simp add: terminated_def)
  from file_lines_append_reading [OF this, of ts t h]
  show ?thesis using assms(1) None
    by (simp add: log_lines_def appendReading_def open_read_def can_open_write_def
        file_lines_Nil)
next
  case (Some inp)
  then have "terminated inp" using assms(2) by (simp add: log_terminated_def)
  from file_lines_append_reading [OF this, of ts t h]
  show ?thesis using assms(1) Some
    by (simp add: log_lines_def appendReading_def open_read_def can_open_write_def)
qed

lemma appendReading_preserves:
  "can_open_write s \<Longrightarrow> can_open_write (appendReading ts t h s)
     \<and> log_terminated (appendReading ts t h s)"
  by (simp add: appendReading_def can_open_write_def log_terminated_def
      terminated_append_reading)

lemma log_lines_append_all:
  "can_open_write s \<Longrightarrow> log_terminated s \<Longrightarrow>
   log_lines (append_all rs s)
     = log_lines s
       @ map (\<lambda>(ts, t, h). fmt_ld (to_long ts) @ comma # fmt_2f t @ comma # fmt_2f h) rs"
proof (induction rs arbitrary: s)
  case Nil
  then show ?case by (simp add: append_all_def)
next
  case (Cons r rs)
  obtain ts t h where r: "r = (ts, t, h)" by (cases r)
  have a: "append_all (r # rs) s = append_all rs (appendReading ts t h s)"
    by (simp add: append_all_def r)
  show ?case
    unfolding a
    using Cons.IH [of "appendReading ts t h s"] appendReading_preserves [OF Cons.prems(1), of ts t h]
      log_lines_appendReading [OF Cons.prems, of ts t h]
    by (simp add: r)
qed

subsection \<open>Evaluating the model on concrete logs\<close>

lemma digit_char_eq: "(of_char c :: nat) = 48 + d \<Longrightarrow> digit_char d = c"
  unfolding digit_char_def by (metis char_of_char)

lemma digit_char_literals:
  "digit_char 0 = CHR ''0''" "digit_char 1 = CHR ''1''" "digit_char 2 = CHR ''2''"
  "digit_char 3 = CHR ''3''" "digit_char 4 = CHR ''4''" "digit_char 5 = CHR ''5''"
  "digit_char 6 = CHR ''6''" "digit_char 7 = CHR ''7''" "digit_char 8 = CHR ''8''"
  "digit_char 9 = CHR ''9''" "digit_char (Suc 0) = CHR ''1''"
  by (rule digit_char_eq; simp)+

lemmas eval_fmt = fmt_ld_def to_long_def fmt_2f_def round_half_even_def show_nat.simps
  digit_char_literals Let_def

lemmas eval_line = indexOf_def substring_def substring_from_def toInt_def atol_def
  isspace_def isdigit_def digits_val_def digit_val_def LONG_MAX_def LONG_MIN_def
  comma_def NUL_def newline_def Let_def

lemma scenario_lines:
  "log_lines scenario_fs = [''1000,20.00,50.00'', ''1060,20.50,51.00'', ''1120,21.00,49.50'']"
  unfolding scenario_fs_def
  by (simp add: log_lines_append_all can_open_write_fs_with_log log_terminated_fs_with_log
      terminated_def log_lines_fs_with_log file_lines_Nil eval_fmt comma_def)

lemma scenario_writable: "can_open_write scenario_fs"
  unfolding scenario_fs_def append_all_def
  by (simp add: appendReading_preserves can_open_write_fs_with_log)

lemmas eval_lines = file_lines.simps readStringUntil_def trim_def isspace_def newline_def

lemma file_lines_trailing:
  assumes "terminated inp" and "newline \<notin> set junk" and "junk \<noteq> []"
  shows "file_lines (inp @ junk) = file_lines inp @ [trim junk]"
  using assms by (simp add: terminated_def file_lines_append file_lines_unterminated)

lemma count_list_clean: "clean s \<Longrightarrow> count_list s comma = 0"
  by (induction s) (auto simp: clean_def)

section \<open>The claims\<close>

subsection \<open>C1: compaction and the retention window\<close>

text \<open>
  Claim C1. After \<open>pruneOlderThan cutoff\<close> on a log that can be rewritten, the lines of the log
  are exactly the lines it had before that the compactor keeps (at least 5 characters, a
  first comma after position 0, timestamp at least \<open>cutoff\<close>), in their original order;
  so every remaining line has a timestamp at least \<open>cutoff\<close>, and a history query afterwards
  returns the records it returned before whose timestamp is at least \<open>cutoff\<close>, in the same
  order: no record inside the window is dropped.
\<close>

theorem compact_keeps_window:
  assumes "can_open_write s"
  shows "log_lines (pruneOlderThan cutoff s) = filter (prune_keeps cutoff) (log_lines s)
         \<and> (\<forall>l\<in>set (log_lines (pruneOlderThan cutoff s)). cutoff \<le> line_ts l)
         \<and> sendHistorySince toFloat c (pruneOlderThan cutoff s)
             = filter (\<lambda>d. cutoff \<le> doc_ts d) (sendHistorySince toFloat c s)"
proof -
  have lines: "log_lines (pruneOlderThan cutoff s) = filter (prune_keeps cutoff) (log_lines s)"
    using assms by (rule log_lines_prune)
  have bound: "\<forall>l\<in>set (log_lines (pruneOlderThan cutoff s)). cutoff \<le> line_ts l"
    unfolding lines by (simp add: prune_keeps_def)
  have "filter (\<lambda>l. record_ok l \<and> c \<le> line_ts l) (filter (prune_keeps cutoff) (log_lines s))
      = filter (\<lambda>l. cutoff \<le> line_ts l) (filter (\<lambda>l. record_ok l \<and> c \<le> line_ts l) (log_lines s))"
    by (auto simp: prune_keeps_def record_ok_def intro: filter_cong)
  then have "sendHistorySince toFloat c (pruneOlderThan cutoff s)
      = filter (\<lambda>d. cutoff \<le> doc_ts d) (sendHistorySince toFloat c s)"
    by (simp add: sendHistorySince_lines lines filter_map o_def doc_ts_line_doc)
  with lines bound show ?thesis by simp
qed

theorem compact_keeps_window_witness:
  "can_open_write scenario_fs
   \<and> log_lines (pruneOlderThan 1100 scenario_fs) = [''1120,21.00,49.50'']
   \<and> sendHistorySince exact_toFloat 0 (pruneOlderThan 1100 scenario_fs)
       = [Doc 1120 (Finite 21) (Finite (99 / 2))]"
proof -
  have k: "filter (prune_keeps 1100) (log_lines scenario_fs) = [''1120,21.00,49.50'']"
    by (simp add: scenario_lines prune_keeps_def line_ts_def eval_line)
  have h: "sendHistorySince exact_toFloat 0 scenario_fs
      = [Doc 1000 (Finite 20) (Finite 50), Doc 1060 (Finite (41 / 2)) (Finite 51),
         Doc 1120 (Finite 21) (Finite (99 / 2))]"
    by (simp add: sendHistorySince_lines scenario_lines record_ok_def line_doc_def line_ts_def
        exact_toFloat_def dec_val_def to_long_def eval_line)
  show ?thesis
    using compact_keeps_window [OF scenario_writable, of 1100 exact_toFloat 0]
    by (simp add: scenario_writable k h)
qed

subsection \<open>C2: the history query\<close>

text \<open>
  Claim C2. For every log and cutoff, every document that \<open>sendHistorySince\<close> sends has a
  timestamp at least the cutoff; the documents are those of the lines that pass the
  structural test and the cutoff, in the order of the lines in the file; a query is the
  query with any lower cutoff, filtered; and a reading appended to a log that is empty or
  ends with a newline comes last.
\<close>

theorem since_order_and_bound:
  "(\<forall>d\<in>set (sendHistorySince toFloat cutoff s). cutoff \<le> doc_ts d)
   \<and> sendHistorySince toFloat cutoff s
       = map (line_doc toFloat) (filter (\<lambda>l. record_ok l \<and> cutoff \<le> line_ts l) (log_lines s))
   \<and> (c \<le> cutoff \<longrightarrow>
        sendHistorySince toFloat cutoff s
          = filter (\<lambda>d. cutoff \<le> doc_ts d) (sendHistorySince toFloat c s))
   \<and> (can_open_write s \<longrightarrow> log_terminated s \<longrightarrow>
        sendHistorySince toFloat cutoff (appendReading ts t h s)
          = sendHistorySince toFloat cutoff s
            @ (if cutoff \<le> to_long ts
               then [Doc (to_long ts) (toFloat (fmt_2f t)) (toFloat (fmt_2f h))] else []))"
proof (intro conjI impI)
  show "\<forall>d\<in>set (sendHistorySince toFloat cutoff s). cutoff \<le> doc_ts d"
    by (auto simp: sendHistorySince_lines doc_ts_line_doc)
  show "sendHistorySince toFloat cutoff s
       = map (line_doc toFloat) (filter (\<lambda>l. record_ok l \<and> cutoff \<le> line_ts l) (log_lines s))"
    by (rule sendHistorySince_lines)
next
  assume "c \<le> cutoff"
  then have "filter (\<lambda>l. record_ok l \<and> cutoff \<le> line_ts l) (log_lines s)
      = filter (\<lambda>l. cutoff \<le> line_ts l) (filter (\<lambda>l. record_ok l \<and> c \<le> line_ts l) (log_lines s))"
    by (auto intro: filter_cong)
  then show "sendHistorySince toFloat cutoff s
      = filter (\<lambda>d. cutoff \<le> doc_ts d) (sendHistorySince toFloat c s)"
    by (simp add: sendHistorySince_lines filter_map o_def doc_ts_line_doc)
next
  assume "can_open_write s" and "log_terminated s"
  then show "sendHistorySince toFloat cutoff (appendReading ts t h s)
      = sendHistorySince toFloat cutoff s
        @ (if cutoff \<le> to_long ts
           then [Doc (to_long ts) (toFloat (fmt_2f t)) (toFloat (fmt_2f h))] else [])"
    by (simp add: sendHistorySince_lines log_lines_appendReading reading_line_ok
        reading_line_ts reading_line_doc)
qed

theorem since_order_and_bound_witness:
  "sendHistorySince exact_toFloat 1060 scenario_fs
     = [Doc 1060 (Finite (41 / 2)) (Finite 51), Doc 1120 (Finite 21) (Finite (99 / 2))]
   \<and> sendHistorySince exact_toFloat 1060 scenario_fs
     = filter (\<lambda>d. 1060 \<le> doc_ts d) (sendHistorySince exact_toFloat 0 scenario_fs)
   \<and> sendHistorySince exact_toFloat 1060 (appendReading 1180 (Finite 22) (Finite 48) scenario_fs)
     = [Doc 1060 (Finite (41 / 2)) (Finite 51), Doc 1120 (Finite 21) (Finite (99 / 2)),
        Doc 1180 (Finite 22) (Finite 48)]"
proof -
  have t: "log_terminated scenario_fs"
    unfolding scenario_fs_def append_all_def
    by (simp add: appendReading_preserves can_open_write_fs_with_log)
  have f: "fmt_2f (Finite 22) = ''22.00''" "fmt_2f (Finite 48) = ''48.00''"
    by (simp_all add: eval_fmt)
  have v: "exact_toFloat ''22.00'' = Finite 22" "exact_toFloat ''48.00'' = Finite 48"
    by (simp_all add: exact_toFloat_def dec_val_def eval_line)
  have l: "map (line_doc exact_toFloat)
             (filter (\<lambda>l. record_ok l \<and> 1060 \<le> line_ts l) (log_lines scenario_fs))
      = [Doc 1060 (Finite (41 / 2)) (Finite 51), Doc 1120 (Finite 21) (Finite (99 / 2))]"
    by (simp add: scenario_lines record_ok_def line_doc_def line_ts_def
        exact_toFloat_def dec_val_def to_long_def eval_line)
  note th = since_order_and_bound [of exact_toFloat 1060 scenario_fs 0 1180 "Finite 22" "Finite 48"]
  have r1: "sendHistorySince exact_toFloat 1060 scenario_fs
      = [Doc 1060 (Finite (41 / 2)) (Finite 51), Doc 1120 (Finite 21) (Finite (99 / 2))]"
    using th l by simp
  have r2: "sendHistorySince exact_toFloat 1060 scenario_fs
      = filter (\<lambda>d. 1060 \<le> doc_ts d) (sendHistorySince exact_toFloat 0 scenario_fs)"
  proof -
    have "(0::int) \<le> 1060" by simp
    with th show ?thesis by blast
  qed
  have r3: "sendHistorySince exact_toFloat 1060 (appendReading 1180 (Finite 22) (Finite 48) scenario_fs)
      = [Doc 1060 (Finite (41 / 2)) (Finite 51), Doc 1120 (Finite 21) (Finite (99 / 2)),
         Doc 1180 (Finite 22) (Finite 48)]"
  proof -
    from th scenario_writable t
    have "sendHistorySince exact_toFloat 1060 (appendReading 1180 (Finite 22) (Finite 48) scenario_fs)
      = sendHistorySince exact_toFloat 1060 scenario_fs
        @ (if 1060 \<le> to_long 1180
           then [Doc (to_long 1180) (exact_toFloat (fmt_2f (Finite 22)))
                  (exact_toFloat (fmt_2f (Finite 48)))] else [])"
      by blast
    then show ?thesis by (simp add: r1 f v to_long_def)
  qed
  show ?thesis using r1 r2 r3 by (intro conjI)
qed

subsection \<open>C3: the latest reading\<close>

text \<open>
  Claim C3 says that \<open>handleLatest\<close> returns the last line that decodes. It does not: when the
  last line longer than 5 characters lacks its second comma the answer is 500, although the
  line before it decodes, as the history query on the same log shows.
\<close>

theorem latest_not_last_decodable_line:
  "handleLatest exact_toFloat
      (fs_with_log (''1700000100,20.00,50.00'' @ [newline] @ ''1700000160,21.''))
     = (500, ErrorBody ''bad_log_format'')
   \<and> sendHistorySince exact_toFloat 0
      (fs_with_log (''1700000100,20.00,50.00'' @ [newline] @ ''1700000160,21.''))
     = [Doc 1700000100 (Finite 20) (Finite 50)]"
proof -
  have l: "file_lines (''1700000100,20.00,50.00'' @ [newline] @ ''1700000160,21.'')
      = [''1700000100,20.00,50.00'', ''1700000160,21.'']"
    by (simp add: eval_lines)
  have r: "\<not> record_ok ''1700000160,21.''" "record_ok ''1700000100,20.00,50.00''"
    by (simp_all add: record_ok_def eval_line)
  have t: "0 \<le> line_ts ''1700000100,20.00,50.00''"
    by (simp add: line_ts_def eval_line)
  have d: "line_doc exact_toFloat ''1700000100,20.00,50.00''
      = Doc 1700000100 (Finite 20) (Finite 50)"
    by (simp add: line_doc_def line_ts_def exact_toFloat_def dec_val_def to_long_def eval_line)
  show ?thesis
    by (simp add: handleLatest_lines sendHistorySince_lines log_lines_fs_with_log l r t d
        del: append.simps)
qed

text \<open>
  Claim C3, as the code has it. \<open>handleLatest\<close> looks only at the last line whose trimmed
  length exceeds 5: it answers 404 when there is none, 200 with the fields of that line when
  the line passes the structural test, and 500 otherwise. After any number of appends that
  end with the reading \<open>(ts, t, h)\<close>, to a writable log that was empty or ended with a
  newline, the answer is 200 with that reading as its line holds it: the timestamp cast to
  \<open>long\<close> and the \<open>%.2f\<close> texts of both values, read by \<open>toFloat\<close>.
\<close>

theorem latest_after_appends:
  "handleLatest toFloat s =
     (if filter (\<lambda>l. 5 < length l) (log_lines s) = [] then (404, ErrorBody ''no_data'')
      else if record_ok (last (filter (\<lambda>l. 5 < length l) (log_lines s)))
           then (200, DocBody (line_doc toFloat (last (filter (\<lambda>l. 5 < length l) (log_lines s)))))
           else (500, ErrorBody ''bad_log_format''))
   \<and> (can_open_write s \<longrightarrow> log_terminated s \<longrightarrow>
        handleLatest toFloat (append_all (rs @ [(ts, t, h)]) s)
          = (200, DocBody (Doc (to_long ts) (toFloat (fmt_2f t)) (toFloat (fmt_2f h)))))"
proof (intro conjI impI)
  show "handleLatest toFloat s =
     (if filter (\<lambda>l. 5 < length l) (log_lines s) = [] then (404, ErrorBody ''no_data'')
      else if record_ok (last (filter (\<lambda>l. 5 < length l) (log_lines s)))
           then (200, DocBody (line_doc toFloat (last (filter (\<lambda>l. 5 < length l) (log_lines s)))))
           else (500, ErrorBody ''bad_log_format''))"
    by (rule handleLatest_lines)
next
  assume w: "can_open_write s" and lt: "log_terminated s"
  let ?body = "fmt_ld (to_long ts) @ comma # fmt_2f t @ comma # fmt_2f h"
  have "5 < length ?body" using reading_line_length [of ts t h] by simp
  then have "filter (\<lambda>l. 5 < length l) (log_lines (append_all (rs @ [(ts, t, h)]) s))
      = filter (\<lambda>l. 5 < length l) (log_lines (append_all rs s)) @ [?body]"
    by (simp add: log_lines_append_all [OF w lt])
  then show "handleLatest toFloat (append_all (rs @ [(ts, t, h)]) s)
      = (200, DocBody (Doc (to_long ts) (toFloat (fmt_2f t)) (toFloat (fmt_2f h))))"
    by (simp add: handleLatest_lines reading_line_ok reading_line_doc)
qed

theorem latest_after_appends_witness:
  "handleLatest exact_toFloat scenario_fs = (200, DocBody (Doc 1120 (Finite 21) (Finite (99 / 2))))
   \<and> handleLatest exact_toFloat (fs_with_log []) = (404, ErrorBody ''no_data'')"
proof -
  have w: "can_open_write (fs_with_log [])" by (rule can_open_write_fs_with_log)
  have lt: "log_terminated (fs_with_log [])"
    by (simp add: log_terminated_fs_with_log terminated_def)
  have f: "fmt_2f (Finite 21) = ''21.00''" "fmt_2f (Finite (99 / 2)) = ''49.50''"
    by (simp_all add: eval_fmt)
  have v: "exact_toFloat ''21.00'' = Finite 21" "exact_toFloat ''49.50'' = Finite (99 / 2)"
    by (simp_all add: exact_toFloat_def dec_val_def eval_line)
  note th = latest_after_appends [of exact_toFloat "fs_with_log []"
      "[(1000, Finite 20, Finite 50), (1060, Finite (41 / 2), Finite 51)]" 1120 "Finite 21"
      "Finite (99 / 2)"]
  from th w lt have "handleLatest exact_toFloat scenario_fs
      = (200, DocBody (Doc (to_long 1120) (exact_toFloat (fmt_2f (Finite 21)))
           (exact_toFloat (fmt_2f (Finite (99 / 2))))))"
    unfolding scenario_fs_def by simp
  moreover from th have "handleLatest exact_toFloat (fs_with_log []) = (404, ErrorBody ''no_data'')"
    by (simp add: log_lines_fs_with_log file_lines_Nil)
  ultimately show ?thesis by (simp add: f v to_long_def)
qed

subsection \<open>C4: the round trip through a line\<close>

text \<open>
  Claim C4 is stated for every non-negative timestamp. The line holds \<open>(long)ts\<close>, so the
  reading with timestamp \<open>2^31\<close> comes back with timestamp \<open>-2^31\<close>.
\<close>

theorem long_timestamp_wraps:
  "sendHistorySince exact_toFloat LONG_MIN
      (appendReading 2147483648 (Finite 20) (Finite 50) (fs_with_log []))
     = [Doc (- 2147483648) (Finite 20) (Finite 50)]
   \<and> handleLatest exact_toFloat
      (appendReading 2147483648 (Finite 20) (Finite 50) (fs_with_log []))
     = (200, DocBody (Doc (- 2147483648) (Finite 20) (Finite 50)))"
proof -
  have w: "can_open_write (fs_with_log [])" by (rule can_open_write_fs_with_log)
  have lt: "log_terminated (fs_with_log [])"
    by (simp add: log_terminated_fs_with_log terminated_def)
  have l: "log_lines (appendReading 2147483648 (Finite 20) (Finite 50) (fs_with_log []))
      = [''-2147483648,20.00,50.00'']"
    by (simp add: log_lines_appendReading [OF w lt] log_lines_fs_with_log file_lines_Nil
        eval_fmt comma_def)
  have r: "record_ok ''-2147483648,20.00,50.00''"
    by (simp add: record_ok_def eval_line)
  have t: "LONG_MIN \<le> line_ts ''-2147483648,20.00,50.00''"
    by (simp add: line_ts_def eval_line)
  have d: "line_doc exact_toFloat ''-2147483648,20.00,50.00''
      = Doc (- 2147483648) (Finite 20) (Finite 50)"
    by (simp add: line_doc_def line_ts_def exact_toFloat_def dec_val_def to_long_def eval_line)
  show ?thesis
    by (simp add: handleLatest_lines sendHistorySince_lines l r t d)
qed

text \<open>
  Claim C4, for timestamps from 0 to \<open>LONG_MAX\<close> and finite values. Both readers split the
  line that \<open>appendReading\<close> wrote into the three texts that were printed: the timestamp is
  reproduced exactly, and \<open>toFloat\<close> is given the \<open>%.2f\<close> texts, whose decimal values are
  the values rounded to hundredths, at most 0.005 away from them.
\<close>

theorem codec_round_trip:
  assumes "0 \<le> ts" and "ts \<le> LONG_MAX"
  shows "sendHistorySince toFloat 0 (appendReading ts (Finite qt) (Finite qh) (fs_with_log []))
           = [Doc ts (toFloat (fmt_2f (Finite qt))) (toFloat (fmt_2f (Finite qh)))]
         \<and> handleLatest toFloat (appendReading ts (Finite qt) (Finite qh) (fs_with_log []))
           = (200, DocBody (Doc ts (toFloat (fmt_2f (Finite qt))) (toFloat (fmt_2f (Finite qh)))))
         \<and> sendHistorySince exact_toFloat 0
             (appendReading ts (Finite qt) (Finite qh) (fs_with_log []))
           = [Doc ts (Finite (round2 qt)) (Finite (round2 qh))]
         \<and> \<bar>round2 qt - qt\<bar> \<le> 1 / 200 \<and> \<bar>round2 qh - qh\<bar> \<le> 1 / 200"
proof -
  have w: "can_open_write (fs_with_log [])" by (rule can_open_write_fs_with_log)
  have lt: "log_terminated (fs_with_log [])"
    by (simp add: log_terminated_fs_with_log terminated_def)
  have id: "to_long ts = ts"
    using assms by (intro to_long_id) (simp_all add: LONG_MIN_def)
  let ?body = "fmt_ld (to_long ts) @ comma # fmt_2f (Finite qt) @ comma # fmt_2f (Finite qh)"
  have l: "log_lines (appendReading ts (Finite qt) (Finite qh) (fs_with_log [])) = [?body]"
    by (simp add: log_lines_appendReading [OF w lt] log_lines_fs_with_log file_lines_Nil)
  have len: "5 < length ?body" using reading_line_length [of ts "Finite qt" "Finite qh"] by simp
  have ok: "record_ok ?body" by (rule reading_line_ok)
  have lts: "line_ts ?body = ts" using reading_line_ts [of ts "Finite qt" "Finite qh"] id by simp
  have doc: "line_doc f ?body = Doc ts (f (fmt_2f (Finite qt))) (f (fmt_2f (Finite qh)))" for f
    using reading_line_doc [of f ts "Finite qt" "Finite qh"] id by simp
  have since: "sendHistorySince f 0 (appendReading ts (Finite qt) (Finite qh) (fs_with_log []))
      = [Doc ts (f (fmt_2f (Finite qt))) (f (fmt_2f (Finite qh)))]" for f
    using assms(1) by (simp only: sendHistorySince_lines l) (simp add: ok lts doc)
  have latest: "handleLatest toFloat (appendReading ts (Finite qt) (Finite qh) (fs_with_log []))
      = (200, DocBody (Doc ts (toFloat (fmt_2f (Finite qt))) (toFloat (fmt_2f (Finite qh)))))"
    using len by (simp only: handleLatest_lines l) (simp add: ok doc)
  show ?thesis
    using since [of toFloat] since [of exact_toFloat] latest round2_error [of qt] round2_error [of qh]
    by (simp add: exact_toFloat_def dec_val_fmt_2f)
qed

theorem codec_round_trip_witness:
  "(0::int) \<le> 1700000160 \<and> (1700000160::int) \<le> LONG_MAX
   \<and> sendHistorySince exact_toFloat 0
       (appendReading 1700000160 (Finite (323 / 16)) (Finite (4567 / 100)) (fs_with_log []))
     = [Doc 1700000160 (Finite (2019 / 100)) (Finite (4567 / 100))]
   \<and> \<bar>(2019 / 100 :: rat) - 323 / 16\<bar> \<le> 1 / 200"
proof -
  have a: "(0::int) \<le> 1700000160" "(1700000160::int) \<le> LONG_MAX"
    by (simp_all add: LONG_MAX_def)
  have fl: "\<lfloor>8075 / 4 :: rat\<rfloor> = 2018" by (rule floor_unique) simp_all
  have r: "round2 (323 / 16) = 2019 / 100" "round2 (4567 / 100) = 4567 / 100"
    by (simp_all add: round2_def round_half_even_def Let_def fl)
  from codec_round_trip [OF a, of exact_toFloat "323 / 16" "4567 / 100"]
  have "sendHistorySince exact_toFloat 0
       (appendReading 1700000160 (Finite (323 / 16)) (Finite (4567 / 100)) (fs_with_log []))
     = [Doc 1700000160 (Finite (round2 (323 / 16))) (Finite (round2 (4567 / 100)))]"
    and "\<bar>round2 (323 / 16) - 323 / 16\<bar> \<le> 1 / 200"
    by blast+
  then show ?thesis using a by (simp add: r)
qed

subsection \<open>C5: a corrupt last line\<close>

text \<open>
  Claim C5 says that neither query fails on a corrupt last line. \<open>handleLatest\<close> does: a
  partial last line of more than 5 characters without a comma makes it answer 500, where
  the log without that line gives the reading before it.
\<close>

theorem latest_fails_on_trailing_partial_line:
  "handleLatest exact_toFloat
      (fs_with_log (''1700000100,20.00,50.00'' @ [newline] @ ''1700000160''))
     = (500, ErrorBody ''bad_log_format'')
   \<and> handleLatest exact_toFloat (fs_with_log (''1700000100,20.00,50.00'' @ [newline]))
     = (200, DocBody (Doc 1700000100 (Finite 20) (Finite 50)))"
proof -
  have l: "file_lines (''1700000100,20.00,50.00'' @ [newline] @ ''1700000160'')
      = [''1700000100,20.00,50.00'', ''1700000160'']"
    "file_lines (''1700000100,20.00,50.00'' @ [newline]) = [''1700000100,20.00,50.00'']"
    by (simp_all add: eval_lines)
  have r: "\<not> record_ok ''1700000160''" "record_ok ''1700000100,20.00,50.00''"
    by (simp_all add: record_ok_def eval_line)
  have d: "line_doc exact_toFloat ''1700000100,20.00,50.00''
      = Doc 1700000100 (Finite 20) (Finite 50)"
    by (simp add: line_doc_def line_ts_def exact_toFloat_def dec_val_def to_long_def eval_line)
  show ?thesis
    by (simp add: handleLatest_lines log_lines_fs_with_log l r d del: append.simps)
qed

text \<open>
  Claim C5, as the code has it. Let the log end with a partial line \<open>junk\<close> that fails the
  structural test, after content that is empty or ends with a newline. The history query
  returns what it returns without that line. \<open>handleLatest\<close> does so when the trimmed line
  has at most 5 characters, and answers 500 when it has more.
\<close>

theorem trailing_corrupt_line:
  assumes "terminated inp" and "newline \<notin> set junk" and "junk \<noteq> []"
    and "\<not> record_ok (trim junk)"
  shows "sendHistorySince toFloat cutoff (fs_with_log (inp @ junk))
           = sendHistorySince toFloat cutoff (fs_with_log inp)
         \<and> (length (trim junk) \<le> 5 \<longrightarrow>
              handleLatest toFloat (fs_with_log (inp @ junk)) = handleLatest toFloat (fs_with_log inp))
         \<and> (5 < length (trim junk) \<longrightarrow>
              handleLatest toFloat (fs_with_log (inp @ junk)) = (500, ErrorBody ''bad_log_format''))"
proof -
  have l: "log_lines (fs_with_log (inp @ junk)) = log_lines (fs_with_log inp) @ [trim junk]"
    using file_lines_trailing [OF assms(1-3)] by (simp add: log_lines_fs_with_log)
  show ?thesis
    using assms(4) by (simp add: sendHistorySince_lines handleLatest_lines l)
qed

theorem trailing_corrupt_line_witness:
  "terminated (''1700000100,20.00,50.00'' @ [newline])
   \<and> newline \<notin> set ''1700''
   \<and> sendHistorySince exact_toFloat 0 (fs_with_log ((''1700000100,20.00,50.00'' @ [newline]) @ ''1700''))
       = sendHistorySince exact_toFloat 0 (fs_with_log (''1700000100,20.00,50.00'' @ [newline]))
   \<and> handleLatest exact_toFloat (fs_with_log ((''1700000100,20.00,50.00'' @ [newline]) @ ''1700''))
       = handleLatest exact_toFloat (fs_with_log (''1700000100,20.00,50.00'' @ [newline]))
   \<and> newline \<notin> set ''1700000160,2''
   \<and> handleLatest exact_toFloat
        (fs_with_log ((''1700000100,20.00,50.00'' @ [newline]) @ ''1700000160,2''))
       = (500, ErrorBody ''bad_log_format'')"
proof -
  let ?inp = "''1700000100,20.00,50.00'' @ [newline]"
  have t: "terminated ?inp" by (simp add: terminated_def)
  have n: "newline \<notin> set ''1700''" "newline \<notin> set ''1700000160,2''"
    by (simp_all add: newline_def)
  have tr: "trim ''1700'' = ''1700''" "trim ''1700000160,2'' = ''1700000160,2''"
    by (simp_all add: trim_def isspace_def)
  have r: "\<not> record_ok (trim ''1700'')" "\<not> record_ok (trim ''1700000160,2'')"
    unfolding tr by (simp_all add: record_ok_def eval_line)
  have e: "''1700'' \<noteq> []" "''1700000160,2'' \<noteq> []" by simp_all
  from trailing_corrupt_line [OF t n(1) e(1) r(1), of exact_toFloat 0]
    trailing_corrupt_line [OF t n(2) e(2) r(2), of exact_toFloat 0]
  show ?thesis using t n by (simp add: tr del: append.simps append_assoc)
qed

subsection \<open>C6: compaction and corrupt lines\<close>

text \<open>
  Claim C6 says that no corrupt line survives compaction. A line without its second comma,
  which the history query skips, survives when its first field is a timestamp inside the
  window.
\<close>

theorem compaction_keeps_corrupt_line:
  "log_lines (pruneOlderThan 1700000000
      (fs_with_log (''1700000100,20.00,50.00'' @ [newline] @ ''1700000160,21.'')))
     = [''1700000100,20.00,50.00'', ''1700000160,21.'']
   \<and> \<not> record_ok ''1700000160,21.''
   \<and> sendHistorySince exact_toFloat 0 (fs_with_log (''1700000160,21.'')) = []"
proof -
  let ?log = "''1700000100,20.00,50.00'' @ [newline] @ ''1700000160,21.''"
  have l: "file_lines ?log = [''1700000100,20.00,50.00'', ''1700000160,21.'']"
    by (simp add: eval_lines)
  have k: "prune_keeps 1700000000 ''1700000100,20.00,50.00''"
    "prune_keeps 1700000000 ''1700000160,21.''"
    by (simp_all add: prune_keeps_def line_ts_def eval_line)
  have r: "\<not> record_ok ''1700000160,21.''"
    by (simp add: record_ok_def eval_line)
  have l2: "file_lines ''1700000160,21.'' = [''1700000160,21.'']"
    by (simp add: eval_lines)
  show ?thesis
    using r
    by (simp add: log_lines_prune can_open_write_fs_with_log log_lines_fs_with_log l k
        sendHistorySince_lines l2 del: append.simps)
qed

text \<open>
  Claim C6, as the code has it. After \<open>pruneOlderThan cutoff\<close> on a log that can be
  rewritten, every line of the log is a line it had before, has at least 5 characters, a
  first comma after position 0 and a timestamp at least \<open>cutoff\<close>; every line that is
  shorter, or has no comma after position 0, or an older timestamp, is gone.
\<close>

theorem compaction_drops_unstructured_lines:
  assumes "can_open_write s"
  shows "(\<forall>l\<in>set (log_lines (pruneOlderThan cutoff s)).
            l \<in> set (log_lines s) \<and> 5 \<le> length l \<and> 0 < indexOf comma 0 l \<and> cutoff \<le> line_ts l)
         \<and> (\<forall>l\<in>set (log_lines s).
              length l < 5 \<or> indexOf comma 0 l \<le> 0 \<or> line_ts l < cutoff
                \<longrightarrow> l \<notin> set (log_lines (pruneOlderThan cutoff s)))"
  using log_lines_prune [OF assms, of cutoff] by (auto simp: prune_keeps_def)

theorem compaction_drops_unstructured_lines_witness:
  "can_open_write (fs_with_log (''garbage'' @ [newline] @ '',1,2,3'' @ [newline]
        @ ''1600000000,19.00,40.00'' @ [newline] @ ''1700000100,20.00,50.00'' @ [newline]))
   \<and> ''garbage'' \<notin> set (log_lines (pruneOlderThan 1700000000
        (fs_with_log (''garbage'' @ [newline] @ '',1,2,3'' @ [newline]
        @ ''1600000000,19.00,40.00'' @ [newline] @ ''1700000100,20.00,50.00'' @ [newline]))))
   \<and> '',1,2,3'' \<notin> set (log_lines (pruneOlderThan 1700000000
        (fs_with_log (''garbage'' @ [newline] @ '',1,2,3'' @ [newline]
        @ ''1600000000,19.00,40.00'' @ [newline] @ ''1700000100,20.00,50.00'' @ [newline]))))
   \<and> ''1600000000,19.00,40.00'' \<notin> set (log_lines (pruneOlderThan 1700000000
        (fs_with_log (''garbage'' @ [newline] @ '',1,2,3'' @ [newline]
        @ ''1600000000,19.00,40.00'' @ [newline] @ ''1700000100,20.00,50.00'' @ [newline]))))"
proof -
  let ?log = "''garbage'' @ [newline] @ '',1,2,3'' @ [newline]
        @ ''1600000000,19.00,40.00'' @ [newline] @ ''1700000100,20.00,50.00'' @ [newline]"
  have w: "can_open_write (fs_with_log ?log)" by (rule can_open_write_fs_with_log)
  have l: "log_lines (fs_with_log ?log)
      = [''garbage'', '',1,2,3'', ''1600000000,19.00,40.00'', ''1700000100,20.00,50.00'']"
    by (simp add: log_lines_fs_with_log eval_lines)
  have a: "indexOf comma 0 ''garbage'' \<le> 0" "indexOf comma 0 '',1,2,3'' \<le> 0"
    "line_ts ''1600000000,19.00,40.00'' < 1700000000"
    by (simp_all add: line_ts_def eval_line)
  from compaction_drops_unstructured_lines [OF w, of 1700000000] l a
  show ?thesis using w by (simp del: append.simps)
qed

subsection \<open>C7: what the sampling path stores\<close>

text \<open>
  Claim C7 says that every reading the sampling path stores has a timestamp above the floor.
  The line holds \<open>(long)ts\<close>: one pass of \<open>loop\<close> with valid sensor values and the clock at
  \<open>2^31\<close>, which is above the floor, stores a line whose timestamp is \<open>-2^31\<close>.
\<close>

theorem sample_timestamp_wraps:
  "log_lines (store (loop
       \<lparr>tick = 60000, sensorT = Finite 20, sensorH = Finite 50, clock = 2147483648,
          pruneTick1 = 60000, pruneTick2 = 60000, pruneClock = 2147483648\<rparr>
       \<lparr>lastSampleMs = 0, lastPruneMs = 0, store = fs_with_log []\<rparr>))
     = [''-2147483648,20.00,50.00'']
   \<and> line_ts ''-2147483648,20.00,50.00'' = - 2147483648
   \<and> line_ts ''-2147483648,20.00,50.00'' \<le> TIME_FLOOR
   \<and> sendHistorySince exact_toFloat LONG_MIN
        (logSample (Finite 20) (Finite 50) 2147483648 (fs_with_log []))
     = [Doc (- 2147483648) (Finite 20) (Finite 50)]"
proof -
  have w: "can_open_write (fs_with_log [])" by (rule can_open_write_fs_with_log)
  have lt: "log_terminated (fs_with_log [])"
    by (simp add: log_terminated_fs_with_log terminated_def)
  have ls: "logSample (Finite 20) (Finite 50) 2147483648 (fs_with_log [])
      = appendReading 2147483648 (Finite 20) (Finite 50) (fs_with_log [])"
    by (simp add: logSample_def isnan_def flt_lt_def flt_gt_def TIME_FLOOR_def)
  have lp: "store (loop
       \<lparr>tick = 60000, sensorT = Finite 20, sensorH = Finite 50, clock = 2147483648,
          pruneTick1 = 60000, pruneTick2 = 60000, pruneClock = 2147483648\<rparr>
       \<lparr>lastSampleMs = 0, lastPruneMs = 0, store = fs_with_log []\<rparr>)
      = logSample (Finite 20) (Finite 50) 2147483648 (fs_with_log [])"
    by (simp add: loop_def maybePrune_def SAMPLE_MS_def PRUNE_EVERY_MS_def Let_def)
  have l: "log_lines (appendReading 2147483648 (Finite 20) (Finite 50) (fs_with_log []))
      = [''-2147483648,20.00,50.00'']"
    by (simp add: log_lines_appendReading [OF w lt] log_lines_fs_with_log file_lines_Nil
        eval_fmt comma_def)
  have r: "record_ok ''-2147483648,20.00,50.00''"
    by (simp add: record_ok_def eval_line)
  have t: "line_ts ''-2147483648,20.00,50.00'' = - 2147483648"
    by (simp add: line_ts_def eval_line)
  have d: "line_doc exact_toFloat ''-2147483648,20.00,50.00''
      = Doc (- 2147483648) (Finite 20) (Finite 50)"
    by (simp add: line_doc_def line_ts_def exact_toFloat_def dec_val_def to_long_def eval_line)
  show ?thesis
    by (simp add: lp ls sendHistorySince_lines l r t d TIME_FLOOR_def LONG_MIN_def)
qed

text \<open>
  Claim C7, as the code has it. Whenever the sampling branch of \<open>loop\<close> changes the file
  system at all, both sensor values are finite, the temperature is in [-40, 125] and the
  humidity in [0, 100], and so are the decimal values of the two texts that \<open>%.2f\<close> prints;
  the clock reading is above the floor; the change is the call \<open>appendReading\<close> with these
  values; the line written holds the clock reading cast to \<open>long\<close> as its timestamp, which
  is the reading itself, above the floor, when the reading is at most \<open>LONG_MAX\<close>; and on a
  log that was empty or ended with a newline that line is the one line added. One pass of
  \<open>loop\<close> leaves the store as it was, or as the sampling branch leaves it, or as a
  compaction of that.
\<close>

theorem only_valid_samples_logged:
  "(logSample t h clk s \<noteq> s \<longrightarrow>
      (\<exists>qt qh. t = Finite qt \<and> h = Finite qh \<and> - 40 \<le> qt \<and> qt \<le> 125 \<and> 0 \<le> qh \<and> qh \<le> 100
         \<and> dec_val (fmt_2f t) = round2 qt \<and> dec_val (fmt_2f h) = round2 qh
         \<and> - 40 \<le> round2 qt \<and> round2 qt \<le> 125 \<and> 0 \<le> round2 qh \<and> round2 qh \<le> 100)
      \<and> TIME_FLOOR < clk
      \<and> logSample t h clk s = appendReading clk t h s
      \<and> line_ts (butlast (reading_line clk t h)) = to_long clk
      \<and> line_doc toFloat (butlast (reading_line clk t h))
          = Doc (to_long clk) (toFloat (fmt_2f t)) (toFloat (fmt_2f h))
      \<and> (clk \<le> LONG_MAX \<longrightarrow>
           to_long clk = clk \<and> TIME_FLOOR < line_ts (butlast (reading_line clk t h)))
      \<and> (log_terminated s \<longrightarrow>
           log_lines (logSample t h clk s) = log_lines s @ [butlast (reading_line clk t h)]))
   \<and> (store (loop i st) = store st
        \<or> store (loop i st) = logSample (sensorT i) (sensorH i) (clock i) (store st)
        \<or> store (loop i st)
            = pruneOlderThan (pruneClock i - 604800)
                (logSample (sensorT i) (sensorH i) (clock i) (store st)))"
proof (intro conjI impI)
  assume ch: "logSample t h clk s \<noteq> s"
  then have v: "\<not> isnan t" "\<not> isnan h" "\<not> flt_lt t (- 40)" "\<not> flt_gt t 125"
    "\<not> flt_lt h 0" "\<not> flt_gt h 100"
    by (auto simp: logSample_def)
  from ch show fl: "TIME_FLOOR < clk" by (auto simp: logSample_def Let_def split: if_splits)
  from ch show ap: "logSample t h clk s = appendReading clk t h s"
    by (auto simp: logSample_def Let_def split: if_splits)
  have w: "can_open_write s"
  proof (rule ccontr)
    assume "\<not> can_open_write s"
    then have "appendReading clk t h s = s" by (simp add: appendReading_def)
    with ch ap show False by simp
  qed
  from v obtain qt where t: "t = Finite qt" and qt: "- 40 \<le> qt" "qt \<le> 125"
    by (cases t) (auto simp: isnan_def flt_lt_def flt_gt_def)
  from v obtain qh where h: "h = Finite qh" and qh: "0 \<le> qh" "qh \<le> 100"
    by (cases h) (auto simp: isnan_def flt_lt_def flt_gt_def)
  have "- of_nat 40 \<le> round2 qt \<and> round2 qt \<le> of_nat 125"
    by (rule round2_range) (use qt in simp_all)
  moreover have "- of_nat 0 \<le> round2 qh \<and> round2 qh \<le> of_nat 100"
    by (rule round2_range) (use qh in simp_all)
  ultimately show "\<exists>qt qh. t = Finite qt \<and> h = Finite qh \<and> - 40 \<le> qt \<and> qt \<le> 125
      \<and> 0 \<le> qh \<and> qh \<le> 100
      \<and> dec_val (fmt_2f t) = round2 qt \<and> dec_val (fmt_2f h) = round2 qh
      \<and> - 40 \<le> round2 qt \<and> round2 qt \<le> 125 \<and> 0 \<le> round2 qh \<and> round2 qh \<le> 100"
    using t h qt qh by (simp add: dec_val_fmt_2f)
  have bl: "butlast (reading_line clk t h)
      = fmt_ld (to_long clk) @ comma # fmt_2f t @ comma # fmt_2f h"
    unfolding reading_line_fields by (rule butlast_snoc)
  show ts: "line_ts (butlast (reading_line clk t h)) = to_long clk"
    unfolding bl by (rule reading_line_ts)
  show "line_doc toFloat (butlast (reading_line clk t h))
      = Doc (to_long clk) (toFloat (fmt_2f t)) (toFloat (fmt_2f h))"
    unfolding bl by (rule reading_line_doc)
  {
    assume "clk \<le> LONG_MAX"
    then have "to_long clk = clk"
      using fl by (intro to_long_id) (simp_all add: LONG_MIN_def TIME_FLOOR_def)
    then show "to_long clk = clk" and "TIME_FLOOR < line_ts (butlast (reading_line clk t h))"
      using fl ts by simp_all
  }
  {
    assume "log_terminated s"
    then show "log_lines (logSample t h clk s) = log_lines s @ [butlast (reading_line clk t h)]"
      unfolding ap bl using w by (rule log_lines_appendReading [rotated])
  }
next
  show "store (loop i st) = store st
      \<or> store (loop i st) = logSample (sensorT i) (sensorH i) (clock i) (store st)
      \<or> store (loop i st)
          = pruneOlderThan (pruneClock i - 604800)
              (logSample (sensorT i) (sensorH i) (clock i) (store st))"
    by (simp add: loop_def maybePrune_def KEEP_SECONDS_def Let_def)
qed

theorem only_valid_samples_logged_witness:
  "logSample (Finite (323 / 16)) (Finite 45) 1700000160 (fs_with_log [])
     = appendReading 1700000160 (Finite (323 / 16)) (Finite 45) (fs_with_log [])
   \<and> logSample (Finite (323 / 16)) (Finite 45) 1700000160 (fs_with_log []) \<noteq> fs_with_log []
   \<and> log_lines (logSample (Finite (323 / 16)) (Finite 45) 1700000160 (fs_with_log []))
       = [''1700000160,20.19,45.00'']
   \<and> TIME_FLOOR < line_ts ''1700000160,20.19,45.00''
   \<and> logSample (Finite 126) (Finite 45) 1700000160 (fs_with_log []) = fs_with_log []
   \<and> logSample NaN (Finite 45) 1700000160 (fs_with_log []) = fs_with_log []
   \<and> logSample (Finite 20) (Finite 45) 1000 (fs_with_log []) = fs_with_log []"
proof -
  have w: "can_open_write (fs_with_log [])" by (rule can_open_write_fs_with_log)
  have lt: "log_terminated (fs_with_log [])"
    by (simp add: log_terminated_fs_with_log terminated_def)
  have ne: "logSample (Finite (323 / 16)) (Finite 45) 1700000160 (fs_with_log []) \<noteq> fs_with_log []"
  proof
    assume e: "logSample (Finite (323 / 16)) (Finite 45) 1700000160 (fs_with_log []) = fs_with_log []"
    have "files (logSample (Finite (323 / 16)) (Finite 45) 1700000160 (fs_with_log [])) LOG_PATH
        = Some (reading_line 1700000160 (Finite (323 / 16)) (Finite 45))"
      by (simp add: logSample_def isnan_def flt_lt_def flt_gt_def TIME_FLOOR_def
          appendReading_def can_open_write_def fs_with_log_def Let_def)
    moreover have "files (fs_with_log []) LOG_PATH = Some []" by (simp add: fs_with_log_def)
    ultimately show False using e by (simp add: reading_line_def)
  qed
  have fl: "\<lfloor>8075 / 4 :: rat\<rfloor> = 2018" by (rule floor_unique) simp_all
  have rl: "reading_line 1700000160 (Finite (323 / 16)) (Finite 45)
      = ''1700000160,20.19,45.00'' @ [newline]"
    by (simp add: reading_line_def eval_fmt fl comma_def)
  have bl: "butlast (''1700000160,20.19,45.00'' @ [newline]) = ''1700000160,20.19,45.00''"
    by (rule butlast_snoc)
  have lm: "(1700000160::int) \<le> LONG_MAX" by (simp add: LONG_MAX_def)
  have f: "\<not> TIME_FLOOR < 1000" by (simp add: TIME_FLOOR_def)
  note th = only_valid_samples_logged
  note th1 = th [of "Finite (323 / 16)" "Finite 45" 1700000160 "fs_with_log []" exact_toFloat,
      unfolded rl bl]
  from th1 ne
  have r1: "logSample (Finite (323 / 16)) (Finite 45) 1700000160 (fs_with_log [])
     = appendReading 1700000160 (Finite (323 / 16)) (Finite 45) (fs_with_log [])" by blast
  from th1 ne lt
  have r5: "log_lines (logSample (Finite (323 / 16)) (Finite 45) 1700000160 (fs_with_log []))
      = log_lines (fs_with_log []) @ [''1700000160,20.19,45.00'']" by blast
  from th1 ne lm
  have r6: "TIME_FLOOR < line_ts ''1700000160,20.19,45.00''" by blast
  from th [of "Finite 126" "Finite 45" 1700000160 "fs_with_log []"]
  have r2: "logSample (Finite 126) (Finite 45) 1700000160 (fs_with_log []) = fs_with_log []"
    by auto
  from th [of NaN "Finite 45" 1700000160 "fs_with_log []"]
  have r3: "logSample NaN (Finite 45) 1700000160 (fs_with_log []) = fs_with_log []"
    by auto
  from th [of "Finite 20" "Finite 45" 1000 "fs_with_log []"] f
  have r4: "logSample (Finite 20) (Finite 45) 1000 (fs_with_log []) = fs_with_log []"
    by blast
  from r5 have r5': "log_lines (logSample (Finite (323 / 16)) (Finite 45) 1700000160 (fs_with_log []))
      = [''1700000160,20.19,45.00'']"
    by (simp add: log_lines_fs_with_log file_lines_Nil)
  show ?thesis using r1 ne r5' r6 r2 r3 r4 by (intro conjI)
qed

subsection \<open>C8: the cutoff of a history request\<close>

text \<open>
  Claim C8. With a \<open>since\<close> argument the cutoff is its \<open>toInt\<close> value, whatever the clock
  and the \<open>days\<close> argument are (the decimal text of any \<open>long\<close> gives that number);
  otherwise with a \<open>days\<close> argument it is the clock minus that many days, 7 when the
  value is not positive; otherwise the clock minus 7 days; and 0 in both relative cases
  when the clock is not above the floor.
\<close>

theorem history_cutoff:
  "(args ''since'' = Some a \<longrightarrow> history_sinceTs args nowT = toInt a)
   \<and> (args ''since'' = None \<longrightarrow> args ''days'' = Some d \<longrightarrow> TIME_FLOOR < nowT \<longrightarrow>
        history_sinceTs args nowT = nowT - (if toInt d \<le> 0 then 7 else toInt d) * 86400)
   \<and> (args ''since'' = None \<longrightarrow> args ''days'' = None \<longrightarrow> TIME_FLOOR < nowT \<longrightarrow>
        history_sinceTs args nowT = nowT - 7 * 86400)
   \<and> (args ''since'' = None \<longrightarrow> nowT \<le> TIME_FLOOR \<longrightarrow> history_sinceTs args nowT = 0)
   \<and> (LONG_MIN \<le> n \<longrightarrow> n \<le> LONG_MAX \<longrightarrow> history_sinceTs (args(''since'' \<mapsto> fmt_ld n)) nowT = n)
   \<and> handleHistory toFloat args nowT s = sendHistorySince toFloat (history_sinceTs args nowT) s"
  by (auto simp: history_sinceTs_def handleHistory_def KEEP_SECONDS_def Let_def toInt_def
      atol_fmt_ld split: option.splits)

theorem history_cutoff_witness:
  "history_sinceTs [''since'' \<mapsto> ''1700000000'', ''days'' \<mapsto> ''3''] 1800000000 = 1700000000
   \<and> history_sinceTs [''days'' \<mapsto> ''3''] 1800000000 = 1800000000 - 3 * 86400
   \<and> history_sinceTs [''days'' \<mapsto> ''-2''] 1800000000 = 1800000000 - 7 * 86400
   \<and> history_sinceTs Map.empty 1800000000 = 1800000000 - 7 * 86400
   \<and> history_sinceTs [''days'' \<mapsto> ''3''] 1000 = 0
   \<and> history_sinceTs Map.empty 1000 = 0"
proof -
  have v: "toInt ''1700000000'' = 1700000000" "toInt ''3'' = 3" "toInt ''-2'' = - 2"
    by (simp_all add: eval_line)
  have f: "TIME_FLOOR < 1800000000" "(1000::int) \<le> TIME_FLOOR" by (simp_all add: TIME_FLOOR_def)
  note th = history_cutoff
  from th [of "[''since'' \<mapsto> ''1700000000'', ''days'' \<mapsto> ''3'']" "''1700000000''" 1800000000]
  have r1: "history_sinceTs [''since'' \<mapsto> ''1700000000'', ''days'' \<mapsto> ''3''] 1800000000 = 1700000000"
    by (simp add: v)
  from th [of "[''days'' \<mapsto> ''3'']" _ 1800000000 "''3''"] f
  have r2: "history_sinceTs [''days'' \<mapsto> ''3''] 1800000000 = 1800000000 - 3 * 86400"
    by (simp add: v)
  from th [of "[''days'' \<mapsto> ''-2'']" _ 1800000000 "''-2''"] f
  have r3: "history_sinceTs [''days'' \<mapsto> ''-2''] 1800000000 = 1800000000 - 7 * 86400"
    by (simp add: v)
  from th [of Map.empty _ 1800000000] f
  have r4: "history_sinceTs Map.empty 1800000000 = 1800000000 - 7 * 86400" by simp
  from th [of "[''days'' \<mapsto> ''3'']" _ 1000] f
  have r5: "history_sinceTs [''days'' \<mapsto> ''3''] 1000 = 0" by simp
  from th [of Map.empty _ 1000] f
  have r6: "history_sinceTs Map.empty 1000 = 0" by simp
  show ?thesis using r1 r2 r3 r4 r5 r6 by (intro conjI)
qed

subsection \<open>C9: compaction and the clock\<close>

text \<open>
  Claim C9. With a clock reading not above the floor, neither \<open>maybePrune\<close> nor \<open>setup\<close>
  touches the log. With a valid reading \<open>t\<close>, \<open>setup\<close> prunes once with cutoff
  \<open>t - 604800\<close>, and \<open>maybePrune\<close> prunes with the same cutoff when 6 hours of ticks have
  passed and does nothing before. \<open>ensureTime\<close> returns true only after it has read a valid
  clock.
\<close>

theorem prune_needs_valid_clock:
  "(t \<le> TIME_FLOOR \<longrightarrow>
      store (maybePrune ms1 ms2 t st) = store st
      \<and> store (setup_device t ms1 ms2 s) = ensure_log_file s)
   \<and> (TIME_FLOOR < t \<longrightarrow>
        store (setup_device t ms1 ms2 s) = pruneOlderThan (t - 604800) (ensure_log_file s)
        \<and> (PRUNE_EVERY_MS \<le> ms1 - lastPruneMs st \<longrightarrow>
             store (maybePrune ms1 ms2 t st) = pruneOlderThan (t - 604800) (store st))
        \<and> (ms1 - lastPruneMs st < PRUNE_EVERY_MS \<longrightarrow> maybePrune ms1 ms2 t st = st))
   \<and> (ensureTime timeoutMs start polls = Some True \<longrightarrow> (\<exists>p\<in>set polls. TIME_FLOOR < snd p))"
proof -
  have "ensureTime timeoutMs start polls = Some True \<Longrightarrow> \<exists>p\<in>set polls. TIME_FLOOR < snd p"
    by (induction timeoutMs start polls rule: ensureTime.induct) (auto split: if_splits)
  then show ?thesis
    by (simp add: maybePrune_def setup_device_def KEEP_SECONDS_def Let_def not_less)
qed

theorem prune_needs_valid_clock_witness:
  "store (setup_device 1000 0 0 scenario_fs) = scenario_fs
   \<and> store (maybePrune 21600000 21600000 1000
        \<lparr>lastSampleMs = 0, lastPruneMs = 0, store = scenario_fs\<rparr>) = scenario_fs
   \<and> log_lines (store (setup_device 1800000000 0 0 scenario_fs)) = []
   \<and> log_lines (store (maybePrune 21600000 21600000 605900
        \<lparr>lastSampleMs = 0, lastPruneMs = 0, store = scenario_fs\<rparr>)) = log_lines scenario_fs"
proof -
  have f: "(1000::int) \<le> TIME_FLOOR" "TIME_FLOOR < 1800000000" "(605900::int) \<le> TIME_FLOOR"
    by (simp_all add: TIME_FLOOR_def)
  have e: "ensure_log_file scenario_fs = scenario_fs"
    using scenario_writable scenario_lines
    by (auto simp: ensure_log_file_def can_open_write_def log_lines_def open_read_def
        file_lines_Nil split: option.splits)
  have k: "filter (prune_keeps (1800000000 - 604800)) (log_lines scenario_fs) = []"
    by (simp add: scenario_lines prune_keeps_def line_ts_def eval_line)
  note th = prune_needs_valid_clock
  from th [of 1000 21600000 21600000 "\<lparr>lastSampleMs = 0, lastPruneMs = 0, store = scenario_fs\<rparr>"
      scenario_fs] f
  have r2: "store (maybePrune 21600000 21600000 1000
        \<lparr>lastSampleMs = 0, lastPruneMs = 0, store = scenario_fs\<rparr>) = scenario_fs"
    by simp
  from th [of 1000 0 0 _ scenario_fs] f
  have r1: "store (setup_device 1000 0 0 scenario_fs) = scenario_fs" by (simp add: e)
  from th [of 1800000000 0 0 _ scenario_fs] f
  have "store (setup_device 1800000000 0 0 scenario_fs)
      = pruneOlderThan (1800000000 - 604800) scenario_fs" by (simp add: e)
  then have r3: "log_lines (store (setup_device 1800000000 0 0 scenario_fs)) = []"
    by (simp only: log_lines_prune [OF scenario_writable] k)
  from th [of 605900 21600000 21600000 "\<lparr>lastSampleMs = 0, lastPruneMs = 0, store = scenario_fs\<rparr>"] f
  have r4: "log_lines (store (maybePrune 21600000 21600000 605900
        \<lparr>lastSampleMs = 0, lastPruneMs = 0, store = scenario_fs\<rparr>)) = log_lines scenario_fs"
    by simp
  show ?thesis using r1 r2 r3 r4 by (intro conjI)
qed

subsection \<open>C10: written lines pass every reader's test\<close>

text \<open>
  Claim C10. The line that \<open>appendReading\<close> writes for finite values ends with a newline,
  has exactly two commas and at least 11 characters before the newline; a scan reads it
  back as that one line, which passes the structural test of the history query and of
  \<open>handleLatest\<close> (more than 5 characters) and that of the compactor; appended to a log that
  is empty or ends with a newline, it is the last line of the log.
\<close>

theorem written_lines_pass_filters:
  "last (reading_line ts (Finite qt) (Finite qh)) = newline
   \<and> count_list (reading_line ts (Finite qt) (Finite qh)) comma = 2
   \<and> 11 \<le> length (butlast (reading_line ts (Finite qt) (Finite qh)))
   \<and> file_lines (reading_line ts (Finite qt) (Finite qh))
       = [butlast (reading_line ts (Finite qt) (Finite qh))]
   \<and> record_ok (butlast (reading_line ts (Finite qt) (Finite qh)))
   \<and> prune_keeps (to_long ts) (butlast (reading_line ts (Finite qt) (Finite qh)))
   \<and> 5 < length (butlast (reading_line ts (Finite qt) (Finite qh)))
   \<and> (can_open_write s \<longrightarrow> log_terminated s \<longrightarrow>
        log_lines (appendReading ts (Finite qt) (Finite qh) s)
          = log_lines s @ [butlast (reading_line ts (Finite qt) (Finite qh))])"
proof -
  let ?body = "fmt_ld (to_long ts) @ comma # fmt_2f (Finite qt) @ comma # fmt_2f (Finite qh)"
  have rl: "reading_line ts (Finite qt) (Finite qh) = ?body @ [newline]"
    by (rule reading_line_fields)
  have bl: "butlast (reading_line ts (Finite qt) (Finite qh)) = ?body"
    unfolding rl by (rule butlast_snoc)
  have la: "last (reading_line ts (Finite qt) (Finite qh)) = newline"
    unfolding rl by (rule last_snoc)
  have "count_list ?body comma = 2"
    by (simp add: count_list_clean clean_fmt_ld clean_fmt_2f)
  then have cn: "count_list (reading_line ts (Finite qt) (Finite qh)) comma = 2"
    unfolding rl using comma_not_newline by simp
  have len: "11 \<le> length ?body" by (rule reading_line_length_finite)
  have fl: "file_lines (reading_line ts (Finite qt) (Finite qh)) = [?body]"
    unfolding rl
    using file_lines_terminated [OF reading_line_no_newline, of ts "Finite qt" "Finite qh" "[]"]
    by (simp add: reading_line_trim file_lines_Nil)
  have ok: "record_ok ?body" by (rule reading_line_ok)
  have pk: "prune_keeps (to_long ts) ?body"
    using ok len by (simp add: prune_keeps_def record_ok_def reading_line_ts)
  have ap: "can_open_write s \<longrightarrow> log_terminated s \<longrightarrow>
        log_lines (appendReading ts (Finite qt) (Finite qh) s) = log_lines s @ [?body]"
    by (simp add: log_lines_appendReading)
  show ?thesis
    unfolding bl using la cn len fl ok pk ap by simp
qed

theorem written_lines_pass_filters_witness:
  "reading_line 1700000160 (Finite (323 / 16)) (Finite 45) = ''1700000160,20.19,45.00'' @ [newline]
   \<and> count_list (''1700000160,20.19,45.00'' @ [newline]) comma = 2
   \<and> record_ok ''1700000160,20.19,45.00''
   \<and> log_lines (appendReading 1700000160 (Finite (323 / 16)) (Finite 45) scenario_fs)
       = [''1000,20.00,50.00'', ''1060,20.50,51.00'', ''1120,21.00,49.50'',
          ''1700000160,20.19,45.00'']"
proof -
  have fl: "\<lfloor>8075 / 4 :: rat\<rfloor> = 2018" by (rule floor_unique) simp_all
  have rl: "reading_line 1700000160 (Finite (323 / 16)) (Finite 45)
      = ''1700000160,20.19,45.00'' @ [newline]"
    by (simp add: reading_line_def eval_fmt fl comma_def)
  have bl: "butlast (''1700000160,20.19,45.00'' @ [newline]) = ''1700000160,20.19,45.00''"
    by (rule butlast_snoc)
  have t: "log_terminated scenario_fs"
    unfolding scenario_fs_def append_all_def
    by (simp add: appendReading_preserves can_open_write_fs_with_log)
  from written_lines_pass_filters [of 1700000160 "323 / 16" 45 scenario_fs] scenario_writable t
  show ?thesis unfolding rl bl scenario_lines by simp
qed

end
